theory Spec2Isabelle
  imports Complex_Main
begin

section \<open>The EADVFS simulator (eadvfs\_simulator.cpp) as HOL functions\<close>

text \<open>
  The C++ program computes with \<^verbatim>\<open>double\<close>. The embedding reads every \<^verbatim>\<open>double\<close> as a
  real number: sums, products, quotients and comparisons are exact, rounding is not
  modelled. Where the result of the source depends on rounding the embedding does not
  follow it. Two places matter. A sum of remaining demands within one rounding step of
  a threshold of \<^verbatim>\<open>pick_frequency_index\<close> can fall on the other side of it. And a run
  interval too short for the clock to register (in \<^verbatim>\<open>double\<close>, 1e17 + 5 is 1e17) has
  length 0 in the source and a positive length here; the source then takes the branch
  \<^verbatim>\<open>run_time <= 0\<close>, which below the sentinel the embedding never takes. No property
  below says that the loop of \<^verbatim>\<open>simulate_eadvfs\<close> is left: the properties of a run are
  about the states it passes through and the state it is left with, if it is.
  The literals \<^verbatim>\<open>1e-9\<close> and \<^verbatim>\<open>1e18\<close> of the source are the constants \<open>EPS\<close> and \<open>FAR\<close>.
\<close>

definition EPS :: real where
  "EPS = 1 / 1000000000"

definition FAR :: real where
  "FAR = 1000000000000000000"

subsection \<open>Data\<close>

text \<open>\<^verbatim>\<open>struct Process\<close>; the constructor sets \<open>remaining = burst\<close> and both marks to -1.\<close>

record Process =
  pid :: int
  arrival :: real
  burst :: real
  remaining :: real
  start_time :: real
  finish_time :: real

definition mk_Process :: "int \<Rightarrow> real \<Rightarrow> real \<Rightarrow> Process" where
  "mk_Process i a b =
     \<lparr>pid = i, arrival = a, burst = b, remaining = b, start_time = - 1, finish_time = - 1\<rparr>"

text \<open>\<^verbatim>\<open>struct FreqLevel\<close>; the field \<^verbatim>\<open>power\<close> is \<open>power_w\<close> here.\<close>

record FreqLevel =
  ghz :: real
  power_w :: real
  name :: string

text \<open>\<^verbatim>\<open>struct PowerModel\<close> and the three levels its constructor pushes.\<close>

record PowerModel =
  freqs :: "FreqLevel list"
  idle_power :: real

definition PowerModel_init :: PowerModel where
  "PowerModel_init =
     \<lparr>freqs = [\<lparr>ghz = 1, power_w = 15 / 10, name = ''1.0GHz''\<rparr>,
               \<lparr>ghz = 15 / 10, power_w = 26 / 10, name = ''1.5GHz''\<rparr>,
               \<lparr>ghz = 2, power_w = 45 / 10, name = ''2.0GHz''\<rparr>],
      idle_power = 2 / 10\<rparr>"

text \<open>
  \<^verbatim>\<open>struct Scheduler\<close>: the two thresholds. Its reference \<^verbatim>\<open>pm\<close> to the simulator's
  power model is the \<open>PowerModel\<close> argument of \<open>pick_frequency_index\<close>.
\<close>

record Scheduler =
  short_threshold :: real
  util_threshold :: real

definition Scheduler_init :: Scheduler where
  "Scheduler_init = \<lparr>short_threshold = 30, util_threshold = 6 / 10\<rparr>"

text \<open>\<^verbatim>\<open>struct Simulator\<close>; \<open>gantt\<close> is the timeline log of (pid, duration) pairs.\<close>

record Simulator =
  procs :: "Process list"
  pm :: PowerModel
  scheduler :: Scheduler
  current_time :: real
  energy :: real
  busy_time :: real
  gantt :: "(int \<times> real) list"

definition Simulator_init :: Simulator where
  "Simulator_init =
     \<lparr>procs = [], pm = PowerModel_init, scheduler = Scheduler_init,
      current_time = 0, energy = 0, busy_time = 0, gantt = []\<rparr>"

subsection \<open>Scheduler\<close>

text \<open>
  The accumulation loop of \<^verbatim>\<open>pick_frequency_index\<close>: the pair is
  (\<^verbatim>\<open>sum_rem\<close>, \<^verbatim>\<open>short_count\<close>).
\<close>

definition tally :: "Scheduler \<Rightarrow> Process list \<Rightarrow> real \<times> nat" where
  "tally sch ready =
     fold (\<lambda>pr (sum_rem, short_count).
             (sum_rem + remaining pr,
              if remaining pr \<le> short_threshold sch then Suc short_count else short_count))
          ready (0, 0)"

definition pick_frequency_index :: "Scheduler \<Rightarrow> PowerModel \<Rightarrow> Process list \<Rightarrow> real \<Rightarrow> int" where
  "pick_frequency_index sch m ready lookahead_window_ms =
     (if ready = [] then - 1
      else
        let (sum_rem, short_count) = tally sch ready;
            avg_rem = sum_rem / real (length ready);
            short_frac = real short_count / real (length ready);
            util_pred = min 1 (sum_rem / max 1 lookahead_window_ms)
        in if short_frac > 6 / 10 \<or> util_pred > util_threshold sch
           then int (length (freqs m)) - 1
           else if avg_rem > 200 then 0
           else 1)"

text \<open>
  The scan of \<^verbatim>\<open>pick_next_process_index\<close> from position \<open>i\<close> on, with the best index
  and the best remaining demand found so far.
\<close>

fun srtf_scan :: "Process list \<Rightarrow> nat \<Rightarrow> nat \<Rightarrow> real \<Rightarrow> nat" where
  "srtf_scan [] i idx best = idx"
| "srtf_scan (p # ps) i idx best =
     (if remaining p < best then srtf_scan ps (Suc i) i (remaining p)
      else srtf_scan ps (Suc i) idx best)"

definition pick_next_process_index :: "Process list \<Rightarrow> int" where
  "pick_next_process_index ready =
     (case ready of [] \<Rightarrow> - 1 | p # ps \<Rightarrow> int (srtf_scan ps 1 0 (remaining p)))"

subsection \<open>Simulator\<close>

fun load_from :: "int \<Rightarrow> (real \<times> real) list \<Rightarrow> Process list" where
  "load_from i [] = []"
| "load_from i (p # ps) = mk_Process i (fst p) (snd p) # load_from (i + 1) ps"

definition load_processes :: "(real \<times> real) list \<Rightarrow> Simulator \<Rightarrow> Simulator" where
  "load_processes list s = s\<lparr>procs := load_from 1 list\<rparr>"

text \<open>
  The first lines of \<^verbatim>\<open>simulate_eadvfs\<close>: energy, busy time, the clock and the
  mutable fields of every process are reset. The timeline \<open>gantt\<close> is not touched.
\<close>

definition reset :: "Simulator \<Rightarrow> Simulator" where
  "reset s =
     s\<lparr>energy := 0, busy_time := 0, current_time := 0,
       procs := map (\<lambda>pr. pr\<lparr>remaining := burst pr, start_time := - 1, finish_time := - 1\<rparr>)
                  (procs s)\<rparr>"

text \<open>
  The ready queue is a vector of pointers into \<^verbatim>\<open>procs\<close>: here the list of their
  positions, in the order of \<^verbatim>\<open>procs\<close>.
\<close>

definition ready_queue :: "real \<Rightarrow> Process list \<Rightarrow> nat list" where
  "ready_queue ct ps =
     filter (\<lambda>i. arrival (ps ! i) \<le> ct \<and> remaining (ps ! i) > EPS) [0..<length ps]"

text \<open>
  The pair (\<^verbatim>\<open>next_arrival != nullptr\<close>, \<^verbatim>\<open>next_arrival_time\<close>) after the same loop.
\<close>

definition next_arrival :: "real \<Rightarrow> Process list \<Rightarrow> bool \<times> real" where
  "next_arrival ct ps =
     fold (\<lambda>p (found, t). if arrival p > ct \<and> arrival p < t then (True, arrival p) else (found, t))
          ps (False, FAR)"

definition next_event_time :: "real \<Rightarrow> Process list \<Rightarrow> real" where
  "next_event_time ct ps = fold (\<lambda>pr t. if arrival pr > ct then min t (arrival pr) else t) ps FAR"

definition merge_gantt :: "(int \<times> real) list \<Rightarrow> int \<Rightarrow> real \<Rightarrow> (int \<times> real) list" where
  "merge_gantt g i run_time =
     (if g \<noteq> [] \<and> fst (last g) = i then butlast g @ [(i, snd (last g) + run_time)]
      else g @ [(i, run_time)])"

definition any_left :: "Process list \<Rightarrow> bool" where
  "any_left ps = (\<exists>pr \<in> set ps. remaining pr > EPS)"

text \<open>
  What one pass through the body of \<^verbatim>\<open>while(true)\<close> ends in: \<open>Continue\<close> (the next
  pass starts from this state), \<open>Break\<close> (the loop is left with this state), or a
  fault: \<^verbatim>\<open>pm.freqs[fi]\<close> read out of range, or a division by a speed of zero (an IEEE
  infinity in the source, which the real numbers do not have).
\<close>

datatype fault = FreqIndexOutOfRange | ZeroSpeed

datatype outcome = Continue Simulator | Break Simulator | Fault fault

text \<open>The frequency index the engine uses: the scheduler's choice, 0 when it is negative.\<close>

definition chosen_fi :: "Simulator \<Rightarrow> int" where
  "chosen_fi s =
     (let ready = map (\<lambda>i. procs s ! i) (ready_queue (current_time s) (procs s));
          fi = pick_frequency_index (scheduler s) (pm s) ready 200
      in if fi < 0 then 0 else fi)"

text \<open>The position in \<^verbatim>\<open>procs\<close> of the process \<^verbatim>\<open>ready[pi]\<close>.\<close>

definition chosen_proc :: "Simulator \<Rightarrow> nat" where
  "chosen_proc s =
     (let rq = ready_queue (current_time s) (procs s);
          p_i = pick_next_process_index (map (\<lambda>i. procs s ! i) rq)
      in rq ! nat p_i)"

text \<open>\<^verbatim>\<open>run_until\<close> for the level \<open>fl\<close> and the process at position \<open>k\<close>.\<close>

definition run_until :: "Simulator \<Rightarrow> FreqLevel \<Rightarrow> nat \<Rightarrow> real" where
  "run_until s fl k =
     (let ct = current_time s;
          net = next_event_time ct (procs s);
          effective_speed = ghz fl;
          time_to_finish = remaining (procs s ! k) / effective_speed;
          completion_time = ct + time_to_finish;
          ru = (if net < completion_time then net else completion_time);
          quantum = 50
      in if ru - ct > quantum then ct + quantum else ru)"

text \<open>
  The state after the process at position \<open>k\<close> has run for \<open>run_time\<close> at level \<open>fl\<close>:
  the start mark, the progress, the energy, the busy time, the timeline, the clock and
  the finish mark, in the order of the source.
\<close>

definition advance :: "Simulator \<Rightarrow> FreqLevel \<Rightarrow> nat \<Rightarrow> real \<Rightarrow> Simulator" where
  "advance s fl k run_time =
     (let ct = current_time s;
          p = procs s ! k;
          p1 = (if start_time p < 0 then p\<lparr>start_time := ct\<rparr> else p);
          work_done = run_time * ghz fl;
          p2 = p1\<lparr>remaining := max 0 (remaining p1 - work_done)\<rparr>;
          ct' = ct + run_time;
          p3 = (if remaining p2 \<le> EPS then p2\<lparr>finish_time := ct'\<rparr> else p2)
      in s\<lparr>procs := (procs s)[k := p3],
           energy := energy s + power_w fl * (run_time / 1000),
           busy_time := busy_time s + run_time,
           gantt := merge_gantt (gantt s) (pid p) run_time,
           current_time := ct'\<rparr>)"

text \<open>The rest of the pass once \<open>fl\<close> and the process are chosen.\<close>

definition execute :: "real \<Rightarrow> Simulator \<Rightarrow> FreqLevel \<Rightarrow> nat \<Rightarrow> outcome" where
  "execute sim_end_ms s fl k =
     (let ru = run_until s fl k;
          run_time = ru - current_time s
      in if run_time \<le> 0 then Continue (s\<lparr>current_time := ru\<rparr>)
         else
           let s' = advance s fl k run_time
           in if \<not> any_left (procs s') then Break s'
              else if current_time s' > sim_end_ms then Break s'
              else Continue s')"

definition chosen_level :: "Simulator \<Rightarrow> FreqLevel" where
  "chosen_level s = freqs (pm s) ! nat (chosen_fi s)"

definition iteration :: "real \<Rightarrow> Simulator \<Rightarrow> outcome" where
  "iteration sim_end_ms s =
     (let ct = current_time s;
          rq = ready_queue ct (procs s);
          (found, next_arrival_time) = next_arrival ct (procs s)
      in if rq = [] then
           (if \<not> found then Break s
            else
              let idle_for = next_arrival_time - ct
              in Continue (s\<lparr>energy := energy s + idle_power (pm s) * (idle_for / 1000),
                            current_time := next_arrival_time\<rparr>))
         else
           let fi = chosen_fi s
           in if \<not> fi < int (length (freqs (pm s))) then Fault FreqIndexOutOfRange
              else
                let fl = chosen_level s
                in if ghz fl = 0 then Fault ZeroSpeed
                   else execute sim_end_ms s fl (chosen_proc s))"

text \<open>
  The loop, \<open>n\<close> passes at most: \<open>Continue s\<close> says that after \<open>n\<close> passes the loop is
  still running, in state \<open>s\<close>; \<open>Break s\<close> that it was left, within \<open>n\<close> passes, with
  \<open>s\<close>.
\<close>

fun sim_loop :: "nat \<Rightarrow> real \<Rightarrow> Simulator \<Rightarrow> outcome" where
  "sim_loop 0 sim_end_ms s = Continue s"
| "sim_loop (Suc n) sim_end_ms s =
     (case sim_loop n sim_end_ms s of
        Continue s' \<Rightarrow> iteration sim_end_ms s'
      | Break s' \<Rightarrow> Break s'
      | Fault f \<Rightarrow> Fault f)"

definition simulate_eadvfs :: "nat \<Rightarrow> real \<Rightarrow> Simulator \<Rightarrow> outcome" where
  "simulate_eadvfs n sim_end_ms s = sim_loop n sim_end_ms (reset s)"

text \<open>The state an outcome carries, if any.\<close>

fun state_of :: "outcome \<Rightarrow> Simulator option" where
  "state_of (Continue s) = Some s"
| "state_of (Break s) = Some s"
| "state_of (Fault f) = None"

subsection \<open>Reporting\<close>

text \<open>
  The two figures of \<^verbatim>\<open>print_stats_and_gantt\<close> that depend on the whole run: the
  makespan, the largest finish mark or 0, and the utilisation in percent.
\<close>

definition makespan :: "Simulator \<Rightarrow> real" where
  "makespan s = fold (\<lambda>p m. max m (finish_time p)) (procs s) 0"

definition cpu_utilization :: "Simulator \<Rightarrow> real" where
  "cpu_utilization s = busy_time s / max 1 (makespan s) * 100"

subsection \<open>Well-formed inputs\<close>

text \<open>
  The power models the properties are stated for: two levels or more, so that the
  indices 0, 1 and last exist, every speed positive, no power negative.
\<close>

definition valid_power_model :: "PowerModel \<Rightarrow> bool" where
  "valid_power_model m =
     (2 \<le> length (freqs m) \<and> list_all (\<lambda>l. 0 < ghz l \<and> 0 \<le> power_w l) (freqs m) \<and>
      0 \<le> idle_power m)"

subsection \<open>The quantities of the frequency heuristic\<close>

text \<open>
  The sum, the share of short jobs and the mean of a ready list, and the predicted
  utilisation twice: \<open>util_pred_of\<close> as \<^verbatim>\<open>pick_frequency_index\<close> computes it, with the
  window raised to 1 at least, and \<open>util_pred_spec\<close> as the specification words it, the
  sum divided by the window itself. All of them are exact: the sum is the sum of the
  real numbers, where the source adds doubles one by one.
\<close>

definition sum_rem_of :: "Process list \<Rightarrow> real" where
  "sum_rem_of ready = sum_list (map remaining ready)"

definition short_frac_of :: "Scheduler \<Rightarrow> Process list \<Rightarrow> real" where
  "short_frac_of sch ready =
     real (length (filter (\<lambda>pr. remaining pr \<le> short_threshold sch) ready)) / real (length ready)"

definition avg_rem_of :: "Process list \<Rightarrow> real" where
  "avg_rem_of ready = sum_rem_of ready / real (length ready)"


definition util_pred_of :: "Process list \<Rightarrow> real \<Rightarrow> real" where
  "util_pred_of ready window = min 1 (sum_rem_of ready / max 1 window)"

subsection \<open>Properties of the states of a run\<close>

text \<open>One pass leads from \<open>s\<close> to \<open>s'\<close>, whether the loop goes on or is left.\<close>

definition step :: "real \<Rightarrow> Simulator \<Rightarrow> Simulator \<Rightarrow> bool" where
  "step se s s' = (state_of (iteration se s) = Some s')"

text \<open>The clock lies between 0 and the sentinel, the busy time between 0 and the clock.\<close>

definition clock_inv :: "Simulator \<Rightarrow> bool" where
  "clock_inv s =
     (valid_power_model (pm s) \<and> 0 \<le> current_time s \<and> current_time s \<le> FAR \<and>
      0 \<le> busy_time s \<and> busy_time s \<le> current_time s)"

text \<open>
  The marks of one process at clock \<open>ct\<close>: the start mark is not in the future; a finish
  mark other than -1 comes with a remaining demand of at most \<open>EPS\<close>, is not before the
  start mark and not in the future; a process of burst above \<open>EPS\<close> whose remaining demand
  is at most \<open>EPS\<close> has a finish mark.
\<close>

definition job_marks :: "real \<Rightarrow> Process \<Rightarrow> bool" where
  "job_marks ct p =
     (start_time p \<le> ct \<and>
      (finish_time p \<noteq> - 1 \<longrightarrow>
         remaining p \<le> EPS \<and> start_time p \<le> finish_time p \<and> finish_time p \<le> ct) \<and>
      (remaining p \<le> EPS \<and> EPS < burst p \<longrightarrow> 0 \<le> finish_time p))"

definition marks_inv :: "Simulator \<Rightarrow> bool" where
  "marks_inv s = list_all (job_marks (current_time s)) (procs s)"

text \<open>
  What a later state \<open>s'\<close> of a run keeps of an earlier state \<open>s\<close>: the configuration and
  the identity of every process; clock, energy and busy time do not decrease; no
  remaining demand grows; a start mark or a finish mark once set stays.
\<close>

definition later :: "Simulator \<Rightarrow> Simulator \<Rightarrow> bool" where
  "later s s' =
     (pm s' = pm s \<and> scheduler s' = scheduler s \<and> length (procs s') = length (procs s) \<and>
      current_time s \<le> current_time s' \<and> energy s \<le> energy s' \<and>
      busy_time s \<le> busy_time s' \<and>
      (\<forall>i<length (procs s).
         pid (procs s' ! i) = pid (procs s ! i) \<and>
         arrival (procs s' ! i) = arrival (procs s ! i) \<and>
         burst (procs s' ! i) = burst (procs s ! i) \<and>
         remaining (procs s' ! i) \<le> remaining (procs s ! i) \<and>
         (0 \<le> remaining (procs s ! i) \<longrightarrow> 0 \<le> remaining (procs s' ! i)) \<and>
         (0 \<le> start_time (procs s ! i) \<longrightarrow> start_time (procs s' ! i) = start_time (procs s ! i)) \<and>
         (finish_time (procs s ! i) \<noteq> - 1 \<longrightarrow>
            finish_time (procs s' ! i) = finish_time (procs s ! i))))"

subsection \<open>The intervals of a run\<close>

text \<open>
  What a pass adds to the energy is one interval: an idle gap of some length, or a run
  of a process (by pid) for some time at some level. \<open>event_of s\<close> is the interval of
  the pass that starts in \<open>s\<close>, read off the same quantities \<open>iteration\<close> uses; a pass
  that leaves the loop at once, faults or has a run time of 0 or less has none.
\<close>

datatype event = Idle real | Run int real FreqLevel

definition event_of :: "Simulator \<Rightarrow> event option" where
  "event_of s =
     (let ct = current_time s;
          rq = ready_queue ct (procs s);
          (found, next_arrival_time) = next_arrival ct (procs s)
      in if rq = [] then (if \<not> found then None else Some (Idle (next_arrival_time - ct)))
         else if \<not> chosen_fi s < int (length (freqs (pm s))) \<or> ghz (chosen_level s) = 0 then None
         else
           let ru = run_until s (chosen_level s) (chosen_proc s)
           in if ru - ct \<le> 0 then None
              else Some (Run (pid (procs s ! chosen_proc s)) (ru - ct) (chosen_level s)))"

text \<open>The intervals of the first \<open>n\<close> passes of the loop started in \<open>s\<close>, in order.\<close>

fun events :: "nat \<Rightarrow> real \<Rightarrow> Simulator \<Rightarrow> event list" where
  "events 0 se s = []"
| "events (Suc n) se s =
     (case sim_loop n se s of
        Continue s' \<Rightarrow> events n se s @ (case event_of s' of Some e \<Rightarrow> [e] | None \<Rightarrow> [])
      | Break s' \<Rightarrow> events n se s
      | Fault f \<Rightarrow> events n se s)"

text \<open>Joules of one interval: power times the duration in seconds.\<close>

fun event_energy :: "PowerModel \<Rightarrow> event \<Rightarrow> real" where
  "event_energy m (Idle d) = idle_power m * (d / 1000)"
| "event_energy m (Run i d fl) = power_w fl * (d / 1000)"

text \<open>What one interval does to the timeline: a run is merged in, an idle gap leaves no trace.\<close>

fun log_event :: "(int \<times> real) list \<Rightarrow> event \<Rightarrow> (int \<times> real) list" where
  "log_event g (Idle d) = g"
| "log_event g (Run i d fl) = merge_gantt g i d"

text \<open>An interval of positive length, at a level of the power model when it is a run.\<close>

fun event_ok :: "PowerModel \<Rightarrow> event \<Rightarrow> bool" where
  "event_ok m (Idle d) = (0 < d)"
| "event_ok m (Run i d fl) = (0 < d \<and> fl \<in> set (freqs m) \<and> 0 \<le> power_w fl)"

subsection \<open>Unfinished jobs in the final state\<close>


subsection \<open>The printed report\<close>






subsection \<open>The program\<close>

text \<open>
  What \<^verbatim>\<open>main\<close> is given: no argument; an argument for which the stream fails to open
  (\<^verbatim>\<open>!ifs\<close>); or a stream that opened, as the sequence of its whitespace-separated
  tokens. \<^verbatim>\<open>operator>>\<close> reads the longest numeric prefix of a token, so a token is a
  number, a number followed by other text (the number is read, the next read fails at
  the text), or text with no numeric prefix (the read fails). Each number is the value
  read. A stream that opens and yields nothing, an empty file or a directory, is the
  empty sequence.
\<close>

datatype token = Number real | NumberThenText real | Text

datatype job_source = NoArgument | CannotOpen | Tokens "token list"

text \<open>
  \<^verbatim>\<open>while(ifs >> a >> b) jobs.push_back({a,b})\<close>: pairs are read until a read fails
  or the tokens end; an arrival whose burst cannot be read is dropped, a burst that is
  followed by text is kept and ends the reading.
\<close>

fun read_jobs :: "token list \<Rightarrow> (real \<times> real) list" where
  "read_jobs (Number a # Number b # rest) = (a, b) # read_jobs rest"
| "read_jobs (Number a # NumberThenText b # rest) = [(a, b)]"
| "read_jobs ts = []"

definition sample_input :: "(real \<times> real) list" where
  "sample_input = [(0, 120), (20, 30), (40, 50), (100, 200), (150, 20), (300, 400), (350, 60)]"

text \<open>
  \<^verbatim>\<open>main\<close>, with \<open>n\<close> passes of the loop at most: the exit code and the simulator the
  report is printed from, if a simulation was run; \<open>None\<close> when the loop is not left
  within \<open>n\<close> passes or a pass faults.
\<close>

definition main :: "nat \<Rightarrow> job_source \<Rightarrow> (int \<times> Simulator option) option" where
  "main n src =
     (case src of
        CannotOpen \<Rightarrow> Some (1, None)
      | _ \<Rightarrow>
        let jobs = (case src of Tokens ts \<Rightarrow> read_jobs ts | _ \<Rightarrow> sample_input)
        in case simulate_eadvfs n 100000 (load_processes jobs Simulator_init) of
             Break s' \<Rightarrow> Some (0, Some s')
           | _ \<Rightarrow> None)"

subsection \<open>Example inputs\<close>

definition srtf_example :: "Process list" where
  "srtf_example = [(mk_Process 1 0 5), (mk_Process 2 0 3), (mk_Process 3 0 3)]"


definition two_jobs_start :: Simulator where
  "two_jobs_start = reset (load_processes [(0, 120), (20, 30)] Simulator_init)"

definition late_job_start :: Simulator where
  "late_job_start = reset (load_processes [(300, 100)] Simulator_init)"

definition two_jobs :: Simulator where
  "two_jobs = load_processes [(0, 120), (20, 30)] Simulator_init"

definition forced_stop_jobs :: Simulator where
  "forced_stop_jobs = load_processes [(0, 10), (100001, 1000)] Simulator_init"

definition long_job :: Simulator where
  "long_job = load_processes [(0, 400)] Simulator_init"

definition one_short_job :: Simulator where
  "one_short_job = load_processes [(0, 10)] Simulator_init"




section \<open>The scan for the next arrival\<close>

lemma next_event_fold_le:
  "fold (\<lambda>pr t. if arrival pr > ct then min t (arrival pr) else t) ps t0 \<le> t0"
proof (induction ps arbitrary: t0)
  case Nil show ?case by simp
next
  case (Cons p ps)
  show ?case using Cons[of "min t0 (arrival p)"] Cons[of t0] by (simp add: min_def split: if_splits)
qed

lemma next_event_fold_lower:
  "p \<in> set ps \<Longrightarrow> ct < arrival p \<Longrightarrow>
   fold (\<lambda>pr t. if arrival pr > ct then min t (arrival pr) else t) ps t0 \<le> arrival p"
proof (induction ps arbitrary: t0)
  case Nil then show ?case by simp
next
  case (Cons q qs)
  show ?case
  proof (cases "p = q")
    case True
    have "fold (\<lambda>pr t. if arrival pr > ct then min t (arrival pr) else t) qs (min t0 (arrival q)) \<le> min t0 (arrival q)"
      by (rule next_event_fold_le)
    with True Cons.prems show ?thesis by simp
  next
    case False
    with Cons.prems have "p \<in> set qs" by simp
    from Cons.IH[OF this Cons.prems(2)] show ?thesis by simp
  qed
qed

lemma next_event_fold_attained:
  "fold (\<lambda>pr t. if arrival pr > ct then min t (arrival pr) else t) ps t0 = t0 \<or>
   (\<exists>p\<in>set ps. ct < arrival p \<and>
      arrival p = fold (\<lambda>pr t. if arrival pr > ct then min t (arrival pr) else t) ps t0)"
proof (induction ps arbitrary: t0)
  case Nil show ?case by simp
next
  case (Cons q qs)
  show ?case
    using Cons[of "min t0 (arrival q)"] Cons[of t0] by (auto simp: min_def split: if_splits)
qed

lemma next_event_time_le_FAR: "next_event_time ct ps \<le> FAR"
  unfolding next_event_time_def by (rule next_event_fold_le)

lemma next_event_time_lower:
  "p \<in> set ps \<Longrightarrow> ct < arrival p \<Longrightarrow> next_event_time ct ps \<le> arrival p"
  unfolding next_event_time_def by (rule next_event_fold_lower)

lemma next_event_time_attained:
  "next_event_time ct ps = FAR \<or> (\<exists>p\<in>set ps. ct < arrival p \<and> arrival p = next_event_time ct ps)"
  unfolding next_event_time_def by (rule next_event_fold_attained)

lemma next_event_time_gt: "ct < FAR \<Longrightarrow> ct < next_event_time ct ps"
  using next_event_time_attained[of ct ps] by auto

lemma next_event_time_ge: "ct \<le> FAR \<Longrightarrow> ct \<le> next_event_time ct ps"
  using next_event_time_attained[of ct ps] by auto

lemma next_arrival_fold:
  "fold (\<lambda>p (found, t). if arrival p > ct \<and> arrival p < t then (True, arrival p) else (found, t))
        ps (f0, t0)
   = (f0 \<or> (\<exists>p\<in>set ps. ct < arrival p \<and> arrival p < t0),
      fold (\<lambda>pr t. if arrival pr > ct then min t (arrival pr) else t) ps t0)"
proof (induction ps arbitrary: f0 t0)
  case Nil show ?case by simp
next
  case (Cons q qs)
  show ?case
  proof (cases "ct < arrival q \<and> arrival q < t0")
    case True
    then show ?thesis by (auto simp: Cons min_def)
  next
    case False
    then show ?thesis by (auto simp: Cons min_def)
  qed
qed

lemma next_arrival_eq:
  "next_arrival ct ps =
     ((\<exists>p\<in>set ps. ct < arrival p \<and> arrival p < FAR), next_event_time ct ps)"
  by (simp add: next_arrival_def next_event_time_def next_arrival_fold)

lemma next_arrival_found_iff:
  "(\<exists>p\<in>set ps. ct < arrival p \<and> arrival p < FAR) \<longleftrightarrow> next_event_time ct ps < FAR"
proof
  assume "\<exists>p\<in>set ps. ct < arrival p \<and> arrival p < FAR"
  then obtain p where p: "p \<in> set ps" "ct < arrival p" "arrival p < FAR" by blast
  from next_event_time_lower[OF p(1,2)] p show "next_event_time ct ps < FAR" by simp
next
  assume a: "next_event_time ct ps < FAR"
  with next_event_time_attained[of ct ps] show "\<exists>p\<in>set ps. ct < arrival p \<and> arrival p < FAR"
    by auto
qed

section \<open>Frequency selection\<close>

lemma tally_fold:
  "fold (\<lambda>pr (sum_rem, short_count).
             (sum_rem + remaining pr,
              if remaining pr \<le> th then Suc short_count else short_count)) ready (a, c)
   = (a + sum_list (map remaining ready), c + length (filter (\<lambda>pr. remaining pr \<le> th) ready))"
  by (induction ready arbitrary: a c) simp_all

lemma tally_eq:
  "tally sch ready =
     (sum_rem_of ready, length (filter (\<lambda>pr. remaining pr \<le> short_threshold sch) ready))"
  by (simp add: tally_def tally_fold sum_rem_of_def)

lemma pick_frequency_index_eq:
  "ready \<noteq> [] \<Longrightarrow>
   pick_frequency_index sch m ready w =
     (if short_frac_of sch ready > 6 / 10 \<or> util_pred_of ready w > util_threshold sch
      then int (length (freqs m)) - 1
      else if avg_rem_of ready > 200 then 0 else 1)"
  by (simp add: pick_frequency_index_def tally_eq short_frac_of_def util_pred_of_def avg_rem_of_def)








section \<open>Job selection\<close>

lemma srtf_scan_spec:
  assumes "idx < length pre" "best = remaining (pre ! idx)" "i = length pre"
    and "\<forall>j<length pre. best \<le> remaining (pre ! j)"
    and "\<forall>j<idx. best < remaining (pre ! j)"
  shows "srtf_scan ps i idx best < length (pre @ ps) \<and>
         (\<forall>j<length (pre @ ps). remaining ((pre @ ps) ! srtf_scan ps i idx best) \<le> remaining ((pre @ ps) ! j)) \<and>
         (\<forall>j<srtf_scan ps i idx best. remaining ((pre @ ps) ! srtf_scan ps i idx best) < remaining ((pre @ ps) ! j))"
  using assms
proof (induction ps arbitrary: pre idx best i)
  case Nil
  then show ?case by simp
next
  case (Cons p ps)
  show ?case
  proof (cases "remaining p < best")
    case True
    have a: "length pre < length (pre @ [p])" by simp
    have b: "remaining p = remaining ((pre @ [p]) ! length pre)" by simp
    have c: "Suc i = length (pre @ [p])" using Cons.prems by simp
    have d: "\<forall>j<length (pre @ [p]). remaining p \<le> remaining ((pre @ [p]) ! j)"
    proof (intro allI impI)
      fix j assume "j < length (pre @ [p])"
      then consider "j < length pre" | "j = length pre" by (auto simp: less_Suc_eq)
      then show "remaining p \<le> remaining ((pre @ [p]) ! j)"
      proof cases
        case 1
        with Cons.prems(4) have "best \<le> remaining (pre ! j)" by simp
        with True 1 show ?thesis by (simp add: nth_append)
      next
        case 2
        then show ?thesis by simp
      qed
    qed
    have e: "\<forall>j<length pre. remaining p < remaining ((pre @ [p]) ! j)"
      using Cons.prems True by (auto simp: nth_append)
    from Cons.IH[OF a b c d e] True Cons.prems(3) show ?thesis by simp
  next
    case False
    have a: "idx < length (pre @ [p])" using Cons.prems by simp
    have b: "best = remaining ((pre @ [p]) ! idx)" using Cons.prems by (simp add: nth_append)
    have c: "Suc i = length (pre @ [p])" using Cons.prems by simp
    have d: "\<forall>j<length (pre @ [p]). best \<le> remaining ((pre @ [p]) ! j)"
      using Cons.prems False by (auto simp: nth_append less_Suc_eq)
    have e: "\<forall>j<idx. best < remaining ((pre @ [p]) ! j)"
      using Cons.prems by (auto simp: nth_append)
    from Cons.IH[OF a b c d e] False show ?thesis by simp
  qed
qed

lemma pick_next_process_index_first_min:
  assumes "ready \<noteq> []"
  shows "\<exists>r. pick_next_process_index ready = int r \<and> r < length ready \<and>
         (\<forall>j<length ready. remaining (ready ! r) \<le> remaining (ready ! j)) \<and>
         (\<forall>j<r. remaining (ready ! r) < remaining (ready ! j))"
proof -
  from assms obtain p ps where rd: "ready = p # ps" by (cases ready) auto
  have "srtf_scan ps 1 0 (remaining p) < length ([p] @ ps) \<and>
         (\<forall>j<length ([p] @ ps). remaining (([p] @ ps) ! srtf_scan ps 1 0 (remaining p)) \<le> remaining (([p] @ ps) ! j)) \<and>
         (\<forall>j<srtf_scan ps 1 0 (remaining p). remaining (([p] @ ps) ! srtf_scan ps 1 0 (remaining p)) < remaining (([p] @ ps) ! j))"
    by (rule srtf_scan_spec) simp_all
  then show ?thesis
    by (simp add: rd pick_next_process_index_def)
qed

text \<open>
  Claim C3. For a non-empty ready list \<^verbatim>\<open>pick_next_process_index\<close> returns a valid
  position whose remaining demand is the smallest of the list, and every position with
  the same remaining demand is at or after it: the first one met wins. When the pids
  ascend along the list, as they do in the ready queue of the engine, the job picked
  has the lowest pid among the ties.
\<close>

theorem pick_next_process_index_srtf:
  assumes "ready \<noteq> []"
  shows "0 \<le> pick_next_process_index ready \<and>
         nat (pick_next_process_index ready) < length ready \<and>
         (\<forall>j<length ready.
            remaining (ready ! nat (pick_next_process_index ready)) \<le> remaining (ready ! j) \<and>
            (remaining (ready ! j) = remaining (ready ! nat (pick_next_process_index ready)) \<longrightarrow>
               nat (pick_next_process_index ready) \<le> j \<and>
               (sorted_wrt (<) (map pid ready) \<longrightarrow>
                  pid (ready ! nat (pick_next_process_index ready)) \<le> pid (ready ! j))))"
proof -
  from pick_next_process_index_first_min[OF assms] obtain r where
    r: "pick_next_process_index ready = int r" "r < length ready"
       "\<forall>j<length ready. remaining (ready ! r) \<le> remaining (ready ! j)"
       "\<forall>j<r. remaining (ready ! r) < remaining (ready ! j)" by blast
  have "r \<le> j \<and> (sorted_wrt (<) (map pid ready) \<longrightarrow> pid (ready ! r) \<le> pid (ready ! j))"
    if j: "j < length ready" and eq: "remaining (ready ! j) = remaining (ready ! r)" for j
  proof -
    have le: "r \<le> j" using r(4) eq by (metis less_irrefl not_le)
    have "pid (ready ! r) \<le> pid (ready ! j)" if s: "sorted_wrt (<) (map pid ready)"
    proof (cases "r = j")
      case True then show ?thesis by simp
    next
      case False
      with le have "r < j" by simp
      with s j have "map pid ready ! r < map pid ready ! j"
        by (simp add: sorted_wrt_iff_nth_less)
      with j r(2) show ?thesis by simp
    qed
    with le show ?thesis by simp
  qed
  with r show ?thesis by simp
qed

theorem pick_next_process_index_srtf_witness:
  "srtf_example \<noteq> [] \<and> pick_next_process_index srtf_example = 1 \<and>
   sorted_wrt (<) (map pid srtf_example) \<and>
   remaining (srtf_example ! 1) = remaining (srtf_example ! 2) \<and>
   pid (srtf_example ! nat (pick_next_process_index srtf_example)) \<le> pid (srtf_example ! 2)"
proof -
  have ne: "srtf_example \<noteq> []" by (simp add: srtf_example_def)
  have v: "pick_next_process_index srtf_example = 1"
    by (simp add: srtf_example_def pick_next_process_index_def mk_Process_def)
  have s: "sorted_wrt (<) (map pid srtf_example)" by (simp add: srtf_example_def mk_Process_def)
  have e: "remaining (srtf_example ! 1) = remaining (srtf_example ! 2)" by (simp add: srtf_example_def mk_Process_def)
  have l: "(2::nat) < length srtf_example" by (simp add: srtf_example_def)
  from pick_next_process_index_srtf[OF ne] l e s v
  have "pid (srtf_example ! nat (pick_next_process_index srtf_example)) \<le> pid (srtf_example ! 2)"
    by simp
  with ne v s e show ?thesis by simp
qed

lemma load_from_pids: "map pid (load_from i l) = map (\<lambda>k. i + int k) [0..<length l]"
proof (induction l arbitrary: i)
  case Nil show ?case by simp
next
  case (Cons p ps)
  have "map (\<lambda>k. i + int k) [0..<Suc (length ps)] = i # map (\<lambda>k. i + 1 + int k) [0..<length ps]"
    by (simp add: upt_rec[of 0] map_Suc_upt[symmetric] del: upt_Suc)
  then show ?case using Cons by (simp add: mk_Process_def)
qed

text \<open>
  The ready list of the engine is the sublist of \<^verbatim>\<open>procs\<close> of the processes that have
  arrived and are not complete, in the order of \<^verbatim>\<open>procs\<close>; \<^verbatim>\<open>load_processes\<close> numbers
  the processes 1, 2, 3, ... in that order, so the pids ascend along every ready list.
\<close>

lemma ready_procs_filter:
  "map (\<lambda>i. ps ! i) (ready_queue ct ps) = filter (\<lambda>p. arrival p \<le> ct \<and> remaining p > EPS) ps"
proof -
  have "filter (\<lambda>p. arrival p \<le> ct \<and> remaining p > EPS) (map (\<lambda>i. ps ! i) [0..<length ps])
        = map (\<lambda>i. ps ! i) (ready_queue ct ps)"
    by (simp add: filter_map ready_queue_def comp_def)
  then show ?thesis by (simp add: map_nth)
qed

lemma loaded_pids_ascend: "sorted_wrt (<) (map pid (load_from i l))"
  unfolding load_from_pids by (simp add: sorted_wrt_map)

lemma ready_pids_ascend:
  assumes "sorted_wrt (<) (map pid ps)"
  shows "sorted_wrt (<) (map pid (map (\<lambda>i. ps ! i) (ready_queue ct ps)))"
  using assms unfolding ready_procs_filter by (simp add: sorted_wrt_map sorted_wrt_filter)

section \<open>The ready queue and the process picked\<close>

lemma ready_queue_iff:
  "k \<in> set (ready_queue ct ps) \<longleftrightarrow> k < length ps \<and> arrival (ps ! k) \<le> ct \<and> remaining (ps ! k) > EPS"
  by (auto simp: ready_queue_def)

lemma ready_queue_empty_iff:
  "ready_queue ct ps = [] \<longleftrightarrow> (\<forall>p\<in>set ps. \<not> (arrival p \<le> ct \<and> remaining p > EPS))"
proof
  assume e: "ready_queue ct ps = []"
  show "\<forall>p\<in>set ps. \<not> (arrival p \<le> ct \<and> remaining p > EPS)"
  proof
    fix p assume "p \<in> set ps"
    then obtain k where k: "k < length ps" "ps ! k = p" by (auto simp: in_set_conv_nth)
    from e have "k \<notin> set (ready_queue ct ps)" by simp
    with k show "\<not> (arrival p \<le> ct \<and> remaining p > EPS)" by (simp add: ready_queue_iff)
  qed
next
  assume a: "\<forall>p\<in>set ps. \<not> (arrival p \<le> ct \<and> remaining p > EPS)"
  have "k \<notin> set (ready_queue ct ps)" for k
    using a nth_mem[of k ps] by (auto simp: ready_queue_iff)
  then show "ready_queue ct ps = []" by (cases "ready_queue ct ps") auto
qed

lemma chosen_proc_ready:
  assumes "ready_queue (current_time s) (procs s) \<noteq> []"
  shows "chosen_proc s \<in> set (ready_queue (current_time s) (procs s))"
proof -
  let ?rq = "ready_queue (current_time s) (procs s)"
  let ?ready = "map (\<lambda>i. procs s ! i) ?rq"
  from assms have ne: "?ready \<noteq> []" by simp
  from pick_next_process_index_first_min[OF ne] obtain r where
    r: "pick_next_process_index ?ready = int r" "r < length ?ready" by blast
  then show ?thesis by (simp add: chosen_proc_def Let_def)
qed

lemma chosen_proc_facts:
  assumes "ready_queue (current_time s) (procs s) \<noteq> []"
  shows "chosen_proc s < length (procs s)" "arrival (procs s ! chosen_proc s) \<le> current_time s"
    "remaining (procs s ! chosen_proc s) > EPS"
  using chosen_proc_ready[OF assms] by (simp_all add: ready_queue_iff)

lemma chosen_proc_minimal:
  assumes "j \<in> set (ready_queue (current_time s) (procs s))"
  shows "remaining (procs s ! chosen_proc s) \<le> remaining (procs s ! j)"
proof -
  let ?rq = "ready_queue (current_time s) (procs s)"
  let ?ready = "map (\<lambda>i. procs s ! i) ?rq"
  from assms have ne: "?ready \<noteq> []" by auto
  from pick_next_process_index_first_min[OF ne] obtain r where
    r: "pick_next_process_index ?ready = int r" "r < length ?ready"
       "\<forall>j<length ?ready. remaining (?ready ! r) \<le> remaining (?ready ! j)" by blast
  from assms obtain m where m: "m < length ?rq" "?rq ! m = j" by (auto simp: in_set_conv_nth)
  from r(2) have rl: "r < length ?rq" by simp
  from r(3) m(1) have "remaining (?ready ! r) \<le> remaining (?ready ! m)" by simp
  with rl m have "remaining (procs s ! (?rq ! r)) \<le> remaining (procs s ! j)" by simp
  with r(1) show ?thesis by (simp add: chosen_proc_def Let_def)
qed

lemma chosen_fi_nonneg: "0 \<le> chosen_fi s"
  by (simp add: chosen_fi_def Let_def)

lemma chosen_level_in_freqs:
  "chosen_fi s < int (length (freqs (pm s))) \<Longrightarrow> chosen_level s \<in> set (freqs (pm s))"
  using chosen_fi_nonneg[of s] by (simp add: chosen_level_def)

lemma pick_frequency_index_range:
  "pick_frequency_index sch m ready w \<in> {- 1, 0, 1, int (length (freqs m)) - 1}"
proof (cases "ready = []")
  case True
  then show ?thesis by (simp add: pick_frequency_index_def)
next
  case False
  show ?thesis unfolding pick_frequency_index_eq[OF False] by simp
qed

lemma chosen_fi_upper:
  assumes "2 \<le> length (freqs (pm s))"
  shows "chosen_fi s < int (length (freqs (pm s)))"
proof -
  let ?p = "pick_frequency_index (scheduler s) (pm s)
              (map (\<lambda>i. procs s ! i) (ready_queue (current_time s) (procs s))) 200"
  have "?p \<in> {- 1, 0, 1, int (length (freqs (pm s))) - 1}"
    by (rule pick_frequency_index_range)
  moreover have "chosen_fi s = (if ?p < 0 then 0 else ?p)"
    by (simp add: chosen_fi_def Let_def)
  ultimately show ?thesis using assms by auto
qed

section \<open>One run interval\<close>

lemma advance_fields [simp]:
  "current_time (advance s fl k d) = current_time s + d"
  "energy (advance s fl k d) = energy s + power_w fl * (d / 1000)"
  "busy_time (advance s fl k d) = busy_time s + d"
  "gantt (advance s fl k d) = merge_gantt (gantt s) (pid (procs s ! k)) d"
  "pm (advance s fl k d) = pm s"
  "scheduler (advance s fl k d) = scheduler s"
  "length (procs (advance s fl k d)) = length (procs s)"
  by (simp_all add: advance_def Let_def)

lemma advance_other:
  "i \<noteq> k \<Longrightarrow> procs (advance s fl k d) ! i = procs s ! i"
  by (simp add: advance_def Let_def)

lemma advance_chosen:
  assumes "k < length (procs s)"
  shows "pid (procs (advance s fl k d) ! k) = pid (procs s ! k)"
    "arrival (procs (advance s fl k d) ! k) = arrival (procs s ! k)"
    "burst (procs (advance s fl k d) ! k) = burst (procs s ! k)"
    "remaining (procs (advance s fl k d) ! k) = max 0 (remaining (procs s ! k) - d * ghz fl)"
    "start_time (procs (advance s fl k d) ! k) =
       (if start_time (procs s ! k) < 0 then current_time s else start_time (procs s ! k))"
    "finish_time (procs (advance s fl k d) ! k) =
       (if max 0 (remaining (procs s ! k) - d * ghz fl) \<le> EPS then current_time s + d
        else finish_time (procs s ! k))"
  using assms by (auto simp: advance_def Let_def)

lemma run_until_eq:
  "run_until s fl k =
     min (min (current_time s + remaining (procs s ! k) / ghz fl) (next_event_time (current_time s) (procs s)))
         (current_time s + 50)"
  by (simp add: run_until_def Let_def min_def)

section \<open>The cases of one pass\<close>

lemma iteration_idle:
  assumes "ready_queue (current_time s) (procs s) = []"
  shows "iteration se s =
     (if next_event_time (current_time s) (procs s) < FAR
      then Continue (s\<lparr>energy := energy s + idle_power (pm s) *
                         ((next_event_time (current_time s) (procs s) - current_time s) / 1000),
                       current_time := next_event_time (current_time s) (procs s)\<rparr>)
      else Break s)"
  using assms by (simp add: iteration_def next_arrival_eq next_arrival_found_iff Let_def)

lemma iteration_busy:
  assumes "ready_queue (current_time s) (procs s) \<noteq> []"
    and "chosen_fi s < int (length (freqs (pm s)))" and "ghz (chosen_level s) \<noteq> 0"
  shows "iteration se s =
     (if run_until s (chosen_level s) (chosen_proc s) \<le> current_time s
      then Continue (s\<lparr>current_time := run_until s (chosen_level s) (chosen_proc s)\<rparr>)
      else if \<not> any_left (procs (advance s (chosen_level s) (chosen_proc s)
                    (run_until s (chosen_level s) (chosen_proc s) - current_time s)))
              \<or> run_until s (chosen_level s) (chosen_proc s) > se
      then Break (advance s (chosen_level s) (chosen_proc s)
                    (run_until s (chosen_level s) (chosen_proc s) - current_time s))
      else Continue (advance s (chosen_level s) (chosen_proc s)
                    (run_until s (chosen_level s) (chosen_proc s) - current_time s)))"
  using assms by (simp add: iteration_def execute_def Let_def split: prod.splits)

lemma iteration_fault:
  assumes "ready_queue (current_time s) (procs s) \<noteq> []"
    and "\<not> (chosen_fi s < int (length (freqs (pm s))) \<and> ghz (chosen_level s) \<noteq> 0)"
  shows "\<exists>f. iteration se s = Fault f"
  using assms by (auto simp: iteration_def Let_def split: prod.splits)

section \<open>A busy pass\<close>

lemma run_until_Min:
  assumes "current_time s + 50 \<le> FAR"
  shows "run_until s fl k =
     Min ({current_time s + remaining (procs s ! k) / ghz fl, current_time s + 50} \<union>
          {arrival p |p. p \<in> set (procs s) \<and> current_time s < arrival p})"
proof -
  let ?ct = "current_time s"
  let ?a = "?ct + remaining (procs s ! k) / ghz fl"
  let ?net = "next_event_time ?ct (procs s)"
  let ?A = "{arrival p |p. p \<in> set (procs s) \<and> ?ct < arrival p}"
  let ?S = "{?a, ?ct + 50} \<union> ?A"
  have ru: "run_until s fl k = min (min ?a ?net) (?ct + 50)" by (rule run_until_eq)
  have "?A = arrival ` {p \<in> set (procs s). ?ct < arrival p}" by auto
  then have fin: "finite ?S" by simp
  have lower: "run_until s fl k \<le> y" if "y \<in> ?S" for y
  proof -
    from that consider "y = ?a" | "y = ?ct + 50" | "y \<in> ?A" by auto
    then show ?thesis
    proof cases
      case 3
      then obtain p where "p \<in> set (procs s)" "?ct < arrival p" "y = arrival p" by auto
      with next_event_time_lower[of p "procs s" ?ct] show ?thesis by (simp add: ru)
    qed (simp_all add: ru)
  qed
  have mem: "run_until s fl k \<in> ?S"
  proof (cases "?net = FAR")
    case True
    with assms show ?thesis by (auto simp: ru min_def)
  next
    case False
    with next_event_time_attained[of ?ct "procs s"] obtain p where
      "p \<in> set (procs s)" "?ct < arrival p" "arrival p = ?net" by blast
    then have "?net = arrival p \<and> p \<in> set (procs s) \<and> ?ct < arrival p" by simp
    then have "?net \<in> ?A" by blast
    then show ?thesis unfolding ru min_def by auto
  qed
  from Min_eqI[OF fin lower mem] show ?thesis by simp
qed

text \<open>
  Claim C1. In a pass with a non-empty ready queue, a level \<open>fl\<close> of non-zero speed and
  a clock at least 50 ms below the sentinel \<^verbatim>\<open>1e18\<close>, the end of the run interval is the
  least of: clock + remaining / speed for the process picked, clock + 50, and the
  arrivals strictly after the clock. When the duration \<open>d\<close> is positive the pass leaves
  a state in which the remaining demand of that process is reduced by \<open>d * speed\<close> and
  cut off at 0, the energy has grown by \<open>power * d / 1000\<close>, the busy time by \<open>d\<close>, the
  timeline has \<open>d\<close> added to its last entry when that entry has the same pid and the
  entry (pid, \<open>d\<close>) appended otherwise, the clock has advanced by \<open>d\<close>, and no other
  process has changed.
\<close>

theorem busy_iteration_effect:
  assumes "ready_queue (current_time s) (procs s) \<noteq> []"
    and "chosen_fi s < int (length (freqs (pm s)))" and "ghz (chosen_level s) \<noteq> 0"
    and "current_time s + 50 \<le> FAR"
  shows "let fl = chosen_level s; k = chosen_proc s; ct = current_time s;
             ru = run_until s fl k; d = ru - ct
         in ru = Min ({ct + remaining (procs s ! k) / ghz fl, ct + 50} \<union>
                      {arrival p |p. p \<in> set (procs s) \<and> ct < arrival p}) \<and>
            (0 < d \<longrightarrow>
               (\<exists>s'. (iteration se s = Continue s' \<or> iteration se s = Break s') \<and>
                  remaining (procs s' ! k) = max 0 (remaining (procs s ! k) - d * ghz fl) \<and>
                  energy s' = energy s + power_w fl * d / 1000 \<and>
                  busy_time s' = busy_time s + d \<and>
                  gantt s' =
                    (if gantt s \<noteq> [] \<and> fst (last (gantt s)) = pid (procs s ! k)
                     then butlast (gantt s) @ [(pid (procs s ! k), snd (last (gantt s)) + d)]
                     else gantt s @ [(pid (procs s ! k), d)]) \<and>
                  current_time s' = ct + d \<and>
                  (\<forall>i<length (procs s). i \<noteq> k \<longrightarrow> procs s' ! i = procs s ! i)))"
proof -
  let ?fl = "chosen_level s" and ?k = "chosen_proc s" and ?ct = "current_time s"
  let ?ru = "run_until s ?fl ?k"
  let ?s' = "advance s ?fl ?k (?ru - ?ct)"
  have k: "?k < length (procs s)" by (rule chosen_proc_facts(1)[OF assms(1)])
  have m: "?ru = Min ({?ct + remaining (procs s ! ?k) / ghz ?fl, ?ct + 50} \<union>
                      {arrival p |p. p \<in> set (procs s) \<and> ?ct < arrival p})"
    by (rule run_until_Min[OF assms(4)])
  have e: "\<exists>s'. (iteration se s = Continue s' \<or> iteration se s = Break s') \<and>
                  remaining (procs s' ! ?k) = max 0 (remaining (procs s ! ?k) - (?ru - ?ct) * ghz ?fl) \<and>
                  energy s' = energy s + power_w ?fl * (?ru - ?ct) / 1000 \<and>
                  busy_time s' = busy_time s + (?ru - ?ct) \<and>
                  gantt s' =
                    (if gantt s \<noteq> [] \<and> fst (last (gantt s)) = pid (procs s ! ?k)
                     then butlast (gantt s) @ [(pid (procs s ! ?k), snd (last (gantt s)) + (?ru - ?ct))]
                     else gantt s @ [(pid (procs s ! ?k), ?ru - ?ct)]) \<and>
                  current_time s' = ?ct + (?ru - ?ct) \<and>
                  (\<forall>i<length (procs s). i \<noteq> ?k \<longrightarrow> procs s' ! i = procs s ! i)"
    if d: "0 < ?ru - ?ct"
  proof -
    from d have nle: "\<not> ?ru \<le> ?ct" by simp
    have it: "iteration se s = Continue ?s' \<or> iteration se s = Break ?s'"
      unfolding iteration_busy[OF assms(1-3)] using nle by simp
    have props: "remaining (procs ?s' ! ?k) = max 0 (remaining (procs s ! ?k) - (?ru - ?ct) * ghz ?fl)"
      "energy ?s' = energy s + power_w ?fl * (?ru - ?ct) / 1000"
      "busy_time ?s' = busy_time s + (?ru - ?ct)"
      "gantt ?s' =
                    (if gantt s \<noteq> [] \<and> fst (last (gantt s)) = pid (procs s ! ?k)
                     then butlast (gantt s) @ [(pid (procs s ! ?k), snd (last (gantt s)) + (?ru - ?ct))]
                     else gantt s @ [(pid (procs s ! ?k), ?ru - ?ct)])"
      "current_time ?s' = ?ct + (?ru - ?ct)"
      "\<forall>i<length (procs s). i \<noteq> ?k \<longrightarrow> procs ?s' ! i = procs s ! i"
      using k by (simp_all add: advance_chosen advance_other merge_gantt_def)
    from it props show ?thesis by blast
  qed
  from m e show ?thesis unfolding Let_def by blast
qed

lemma two_jobs_start_eval:
  "ready_queue (current_time two_jobs_start) (procs two_jobs_start) = [0]"
  "chosen_fi two_jobs_start = 1"
  "chosen_proc two_jobs_start = 0"
  "chosen_level two_jobs_start = \<lparr>ghz = 15 / 10, power_w = 26 / 10, name = ''1.5GHz''\<rparr>"
  "current_time two_jobs_start = 0"
  "run_until two_jobs_start (chosen_level two_jobs_start) (chosen_proc two_jobs_start) = 20"
  "length (freqs (pm two_jobs_start)) = 3"
  "remaining (procs two_jobs_start ! 0) = 120"
  "pid (procs two_jobs_start ! 0) = 1"
  "gantt two_jobs_start = []"
  "energy two_jobs_start = 0"
  "busy_time two_jobs_start = 0"
  by code_simp+

theorem busy_iteration_effect_witness:
  "ready_queue (current_time two_jobs_start) (procs two_jobs_start) \<noteq> [] \<and>
   chosen_fi two_jobs_start < int (length (freqs (pm two_jobs_start))) \<and>
   ghz (chosen_level two_jobs_start) \<noteq> 0 \<and>
   current_time two_jobs_start + 50 \<le> FAR \<and>
   run_until two_jobs_start (chosen_level two_jobs_start) (chosen_proc two_jobs_start) = 20 \<and>
   (\<exists>s'. (iteration 100000 two_jobs_start = Continue s' \<or> iteration 100000 two_jobs_start = Break s') \<and>
      remaining (procs s' ! 0) = 90 \<and> energy s' = 52 / 1000 \<and> busy_time s' = 20 \<and>
      gantt s' = [(1, 20)] \<and> current_time s' = 20)"
proof -
  have h1: "ready_queue (current_time two_jobs_start) (procs two_jobs_start) \<noteq> []"
    using two_jobs_start_eval(1) by simp
  have h2: "chosen_fi two_jobs_start < int (length (freqs (pm two_jobs_start)))"
    by (simp add: two_jobs_start_eval)
  have h3: "ghz (chosen_level two_jobs_start) \<noteq> 0"
    by (simp add: two_jobs_start_eval)
  have h4: "current_time two_jobs_start + 50 \<le> FAR"
    by (simp add: two_jobs_start_eval FAR_def)
  have d: "0 < run_until two_jobs_start (chosen_level two_jobs_start) (chosen_proc two_jobs_start)
               - current_time two_jobs_start"
    unfolding two_jobs_start_eval(6) two_jobs_start_eval(5) by simp
  from busy_iteration_effect[OF h1 h2 h3 h4, of 100000, unfolded Let_def] d
  obtain s' where s':
    "iteration 100000 two_jobs_start = Continue s' \<or> iteration 100000 two_jobs_start = Break s'"
    "remaining (procs s' ! chosen_proc two_jobs_start) =
       max 0 (remaining (procs two_jobs_start ! chosen_proc two_jobs_start) -
         (run_until two_jobs_start (chosen_level two_jobs_start) (chosen_proc two_jobs_start)
            - current_time two_jobs_start) * ghz (chosen_level two_jobs_start))"
    "energy s' = energy two_jobs_start + power_w (chosen_level two_jobs_start) *
         (run_until two_jobs_start (chosen_level two_jobs_start) (chosen_proc two_jobs_start)
            - current_time two_jobs_start) / 1000"
    "busy_time s' = busy_time two_jobs_start +
         (run_until two_jobs_start (chosen_level two_jobs_start) (chosen_proc two_jobs_start)
            - current_time two_jobs_start)"
    "gantt s' =
       (if gantt two_jobs_start \<noteq> [] \<and>
           fst (last (gantt two_jobs_start)) = pid (procs two_jobs_start ! chosen_proc two_jobs_start)
        then butlast (gantt two_jobs_start) @
             [(pid (procs two_jobs_start ! chosen_proc two_jobs_start),
               snd (last (gantt two_jobs_start)) +
               (run_until two_jobs_start (chosen_level two_jobs_start) (chosen_proc two_jobs_start)
                  - current_time two_jobs_start))]
        else gantt two_jobs_start @
             [(pid (procs two_jobs_start ! chosen_proc two_jobs_start),
               run_until two_jobs_start (chosen_level two_jobs_start) (chosen_proc two_jobs_start)
                  - current_time two_jobs_start)])"
    "current_time s' = current_time two_jobs_start +
         (run_until two_jobs_start (chosen_level two_jobs_start) (chosen_proc two_jobs_start)
            - current_time two_jobs_start)"
    by blast
  have "remaining (procs s' ! 0) = 90" "energy s' = 52 / 1000" "busy_time s' = 20"
    "gantt s' = [(1, 20)]" "current_time s' = 20"
    using s'(2-) unfolding two_jobs_start_eval(6) unfolding two_jobs_start_eval by simp_all
  with s'(1) h1 h2 h3 h4 two_jobs_start_eval(6) show ?thesis by blast
qed

section \<open>An idle pass\<close>

lemma load_from_arrival: "map arrival (load_from i l) = map fst l"
  by (induction l arbitrary: i) (simp_all add: mk_Process_def)

lemma load_from_fresh:
  "map (\<lambda>pr. pr\<lparr>remaining := burst pr, start_time := - 1, finish_time := - 1\<rparr>) (load_from i l)
     = load_from i l"
  by (induction l arbitrary: i) (simp_all add: mk_Process_def)

lemma reset_load_fields:
  "procs (reset (load_processes l s)) = load_from 1 l"
  "current_time (reset s) = 0" "energy (reset s) = 0" "busy_time (reset s) = 0"
  "gantt (reset s) = gantt s" "pm (reset s) = pm s" "scheduler (reset s) = scheduler s"
  by (simp_all add: reset_def load_processes_def load_from_fresh)

lemma simulate_eadvfs_one: "simulate_eadvfs 1 se s = iteration se (reset s)"
  by (simp add: simulate_eadvfs_def)

lemma idle_pass:
  assumes rq: "ready_queue (current_time s) (procs s) = []"
    and far: "\<forall>p\<in>set (procs s). arrival p < FAR"
    and ex: "\<exists>p\<in>set (procs s). current_time s < arrival p"
  shows "iteration se s =
     Continue (s\<lparr>energy := energy s + idle_power (pm s) *
                   ((Min {arrival p |p. p \<in> set (procs s) \<and> current_time s < arrival p}
                     - current_time s) / 1000),
                current_time := Min {arrival p |p. p \<in> set (procs s) \<and> current_time s < arrival p}\<rparr>)"
proof -
  let ?ct = "current_time s"
  let ?net = "next_event_time ?ct (procs s)"
  let ?A = "{arrival p |p. p \<in> set (procs s) \<and> ?ct < arrival p}"
  from ex far have found: "\<exists>p\<in>set (procs s). ?ct < arrival p \<and> arrival p < FAR" by blast
  then have lt: "?net < FAR" by (simp add: next_arrival_found_iff)
  have "?A = arrival ` {p \<in> set (procs s). ?ct < arrival p}" by auto
  then have fin: "finite ?A" by simp
  have lower: "?net \<le> y" if "y \<in> ?A" for y
    using that next_event_time_lower[of _ "procs s" ?ct] by auto
  from lt next_event_time_attained[of ?ct "procs s"] obtain p where
    "p \<in> set (procs s)" "?ct < arrival p" "arrival p = ?net" by auto
  then have "?net = arrival p \<and> p \<in> set (procs s) \<and> ?ct < arrival p" by simp
  then have mem: "?net \<in> ?A" by blast
  from Min_eqI[OF fin lower mem] have "Min ?A = ?net" by simp
  with lt show ?thesis by (simp add: iteration_idle[OF rq])
qed

lemma idle_stop:
  assumes rq: "ready_queue (current_time s) (procs s) = []"
    and ex: "\<not> (\<exists>p\<in>set (procs s). current_time s < arrival p)"
  shows "iteration se s = Break s"
proof -
  from ex have "\<not> (\<exists>p\<in>set (procs s). current_time s < arrival p \<and> arrival p < FAR)" by blast
  then have "\<not> next_event_time (current_time s) (procs s) < FAR"
    by (simp add: next_arrival_found_iff)
  then show ?thesis by (simp add: iteration_idle[OF rq])
qed

text \<open>
  Claim C4. A pass that finds the ready queue empty, all arrivals being below the
  sentinel \<^verbatim>\<open>1e18\<close>: when no process arrives strictly after the clock the loop is left
  with the state as it is; otherwise the clock is set to the earliest such arrival, the
  energy grows by idle power times the length of the gap in seconds, and the processes,
  the busy time and the timeline are unchanged. In particular, for a fresh simulator
  loaded with jobs whose earliest arrival is 300 ms, the first pass of a run ends with
  the clock at 300, the energy at idle power times 0.3, no busy time and an empty
  timeline.
\<close>

theorem idle_iteration_effect:
  "(ready_queue (current_time s) (procs s) = [] \<and> (\<forall>p\<in>set (procs s). arrival p < FAR) \<longrightarrow>
      (if \<exists>p\<in>set (procs s). current_time s < arrival p
       then \<exists>s'. iteration se s = Continue s' \<and>
              current_time s' = Min {arrival p |p. p \<in> set (procs s) \<and> current_time s < arrival p} \<and>
              energy s' = energy s + idle_power (pm s) * (current_time s' - current_time s) / 1000 \<and>
              procs s' = procs s \<and> busy_time s' = busy_time s \<and> gantt s' = gantt s
       else iteration se s = Break s)) \<and>
   (jobs \<noteq> [] \<and> (\<forall>j\<in>set jobs. 300 \<le> fst j \<and> fst j < FAR) \<and> (\<exists>j\<in>set jobs. fst j = 300) \<longrightarrow>
      (\<exists>s'. simulate_eadvfs 1 se (load_processes jobs Simulator_init) = Continue s' \<and>
         current_time s' = 300 \<and> energy s' = idle_power PowerModel_init * (3 / 10) \<and>
         gantt s' = [] \<and> busy_time s' = 0 \<and> procs s' = load_from 1 jobs))"
proof (intro conjI impI)
  assume a: "ready_queue (current_time s) (procs s) = [] \<and> (\<forall>p\<in>set (procs s). arrival p < FAR)"
  show "if \<exists>p\<in>set (procs s). current_time s < arrival p
       then \<exists>s'. iteration se s = Continue s' \<and>
              current_time s' = Min {arrival p |p. p \<in> set (procs s) \<and> current_time s < arrival p} \<and>
              energy s' = energy s + idle_power (pm s) * (current_time s' - current_time s) / 1000 \<and>
              procs s' = procs s \<and> busy_time s' = busy_time s \<and> gantt s' = gantt s
       else iteration se s = Break s"
  proof (cases "\<exists>p\<in>set (procs s). current_time s < arrival p")
    case True
    from a True show ?thesis by (simp add: idle_pass)
  next
    case False
    from a False show ?thesis by (simp add: idle_stop)
  qed
next
  assume b: "jobs \<noteq> [] \<and> (\<forall>j\<in>set jobs. 300 \<le> fst j \<and> fst j < FAR) \<and> (\<exists>j\<in>set jobs. fst j = 300)"
  let ?s = "reset (load_processes jobs Simulator_init)"
  let ?A = "{arrival p |p. p \<in> set (procs ?s) \<and> current_time ?s < arrival p}"
  have ps: "procs ?s = load_from 1 jobs" by (simp add: reset_load_fields)
  have g: "gantt (load_processes jobs Simulator_init) = []"
    "pm (load_processes jobs Simulator_init) = PowerModel_init"
    by (simp_all add: load_processes_def Simulator_init_def)
  have arr: "arrival ` set (procs ?s) = fst ` set jobs"
    unfolding ps using load_from_arrival[of 1 jobs] by (metis set_map)
  have all: "\<forall>p\<in>set (procs ?s). 300 \<le> arrival p \<and> arrival p < FAR"
  proof
    fix p assume "p \<in> set (procs ?s)"
    then have "arrival p \<in> fst ` set jobs" using arr by blast
    with b show "300 \<le> arrival p \<and> arrival p < FAR" by auto
  qed
  from b obtain j where "j \<in> set jobs" "fst j = 300" by blast
  then have "300 \<in> arrival ` set (procs ?s)" unfolding arr by force
  then obtain p where p: "p \<in> set (procs ?s)" "arrival p = 300" by auto
  have rq: "ready_queue (current_time ?s) (procs ?s) = []"
    using all by (force simp: ready_queue_empty_iff reset_load_fields)
  have far: "\<forall>p\<in>set (procs ?s). arrival p < FAR" using all by simp
  have "current_time ?s < arrival p" using p(2) by (simp add: reset_load_fields)
  with p(1) have ex: "\<exists>p\<in>set (procs ?s). current_time ?s < arrival p" by blast
  have "?A = arrival ` set (procs ?s)"
    using all by (force simp: reset_load_fields)
  moreover have "Min (arrival ` set (procs ?s)) = 300"
  proof (rule Min_eqI)
    show "finite (arrival ` set (procs ?s))" by simp
    show "300 \<le> y" if "y \<in> arrival ` set (procs ?s)" for y using that all by auto
    show "300 \<in> arrival ` set (procs ?s)" using p by force
  qed
  ultimately have m: "Min ?A = 300" by simp
  show "\<exists>s'. simulate_eadvfs 1 se (load_processes jobs Simulator_init) = Continue s' \<and>
         current_time s' = 300 \<and> energy s' = idle_power PowerModel_init * (3 / 10) \<and>
         gantt s' = [] \<and> busy_time s' = 0 \<and> procs s' = load_from 1 jobs"
    unfolding simulate_eadvfs_one idle_pass[OF rq far ex] m
    by (simp add: reset_load_fields g)
qed


theorem idle_iteration_effect_witness:
  "ready_queue (current_time late_job_start) (procs late_job_start) = [] \<and>
   list_all (\<lambda>p. arrival p < FAR) (procs late_job_start) \<and>
   list_ex (\<lambda>p. current_time late_job_start < arrival p) (procs late_job_start) \<and>
   (\<exists>s'. iteration 100000 late_job_start = Continue s' \<and>
      procs s' = procs late_job_start \<and> busy_time s' = busy_time late_job_start \<and>
      gantt s' = gantt late_job_start) \<and>
   list_all (\<lambda>j. 300 \<le> fst j \<and> fst j < FAR) [(300, 100 :: real)] \<and>
   (\<exists>s'. simulate_eadvfs 1 100000 (load_processes [(300, 100)] Simulator_init) = Continue s' \<and>
      current_time s' = 300 \<and> energy s' = 6 / 100 \<and> gantt s' = [] \<and> busy_time s' = 0)"
proof -
  have h1: "ready_queue (current_time late_job_start) (procs late_job_start) = []" by code_simp
  have h2: "list_all (\<lambda>p. arrival p < FAR) (procs late_job_start)" by code_simp
  have h3: "list_ex (\<lambda>p. current_time late_job_start < arrival p) (procs late_job_start)"
    by code_simp
  have h4: "list_all (\<lambda>j. 300 \<le> fst j \<and> fst j < FAR) [(300, 100 :: real)]"
    by (simp add: FAR_def)
  have h5: "idle_power PowerModel_init * (3 / 10) = 6 / 100" by (simp add: PowerModel_init_def)
  note t = idle_iteration_effect[of late_job_start 100000 "[(300, 100)]"]
  from t h1 h2 h3
  have a: "\<exists>s'. iteration 100000 late_job_start = Continue s' \<and>
      procs s' = procs late_job_start \<and> busy_time s' = busy_time late_job_start \<and>
      gantt s' = gantt late_job_start"
    unfolding list_all_iff list_ex_iff by auto
  from t h4 h5
  have b: "\<exists>s'. simulate_eadvfs 1 100000 (load_processes [(300, 100)] Simulator_init) = Continue s' \<and>
      current_time s' = 300 \<and> energy s' = 6 / 100 \<and> gantt s' = [] \<and> busy_time s' = 0"
    by auto
  from h1 h2 h3 h4 a b show ?thesis by blast
qed

section \<open>What one pass preserves\<close>

lemma step_cases:
  assumes "step se s s'"
  obtains
    (stop) "ready_queue (current_time s) (procs s) = []" "s' = s"
  | (idle) "ready_queue (current_time s) (procs s) = []"
      "next_event_time (current_time s) (procs s) < FAR"
      "s' = s\<lparr>energy := energy s + idle_power (pm s) *
                  ((next_event_time (current_time s) (procs s) - current_time s) / 1000),
               current_time := next_event_time (current_time s) (procs s)\<rparr>"
  | (skip) "ready_queue (current_time s) (procs s) \<noteq> []"
      "chosen_fi s < int (length (freqs (pm s)))" "ghz (chosen_level s) \<noteq> 0"
      "run_until s (chosen_level s) (chosen_proc s) \<le> current_time s"
      "s' = s\<lparr>current_time := run_until s (chosen_level s) (chosen_proc s)\<rparr>"
  | (busy) "ready_queue (current_time s) (procs s) \<noteq> []"
      "chosen_fi s < int (length (freqs (pm s)))" "ghz (chosen_level s) \<noteq> 0"
      "current_time s < run_until s (chosen_level s) (chosen_proc s)"
      "s' = advance s (chosen_level s) (chosen_proc s)
              (run_until s (chosen_level s) (chosen_proc s) - current_time s)"
proof (cases "ready_queue (current_time s) (procs s) = []")
  case True
  with assms stop idle show ?thesis
    by (auto simp: step_def iteration_idle split: if_splits)
next
  case False
  show ?thesis
  proof (cases "chosen_fi s < int (length (freqs (pm s))) \<and> ghz (chosen_level s) \<noteq> 0")
    case ok: True
    then have it: "iteration se s = (if run_until s (chosen_level s) (chosen_proc s) \<le> current_time s
      then Continue (s\<lparr>current_time := run_until s (chosen_level s) (chosen_proc s)\<rparr>)
      else if \<not> any_left (procs (advance s (chosen_level s) (chosen_proc s)
                    (run_until s (chosen_level s) (chosen_proc s) - current_time s)))
              \<or> run_until s (chosen_level s) (chosen_proc s) > se
      then Break (advance s (chosen_level s) (chosen_proc s)
                    (run_until s (chosen_level s) (chosen_proc s) - current_time s))
      else Continue (advance s (chosen_level s) (chosen_proc s)
                    (run_until s (chosen_level s) (chosen_proc s) - current_time s)))"
      using iteration_busy[OF False, of se] by simp
    show ?thesis
    proof (cases "run_until s (chosen_level s) (chosen_proc s) \<le> current_time s")
      case True
      with it assms have "s' = s\<lparr>current_time := run_until s (chosen_level s) (chosen_proc s)\<rparr>"
        by (simp add: step_def)
      with skip False ok True show ?thesis by blast
    next
      case nle: False
      with it assms have "s' = advance s (chosen_level s) (chosen_proc s)
              (run_until s (chosen_level s) (chosen_proc s) - current_time s)"
        by (simp add: step_def split: if_splits)
      with busy False ok nle show ?thesis by simp
    qed
  next
    case bad: False
    from iteration_fault[OF False bad, of se] assms show ?thesis by (auto simp: step_def)
  qed
qed

lemma run_until_bounds:
  assumes rq: "ready_queue (current_time s) (procs s) \<noteq> []"
    and sp: "0 < ghz fl" and ct: "current_time s \<le> FAR"
  shows "current_time s \<le> run_until s fl (chosen_proc s)"
    and "run_until s fl (chosen_proc s) \<le> FAR"
    and "run_until s fl (chosen_proc s) \<le> current_time s + 50"
    and "run_until s fl (chosen_proc s) \<le>
           current_time s + remaining (procs s ! chosen_proc s) / ghz fl"
    and "current_time s < FAR \<Longrightarrow> current_time s < run_until s fl (chosen_proc s)"
proof -
  let ?ct = "current_time s" and ?k = "chosen_proc s"
  have rem: "0 < remaining (procs s ! ?k)"
    using chosen_proc_facts(3)[OF rq] by (simp add: EPS_def)
  with sp have q: "0 < remaining (procs s ! ?k) / ghz fl" by simp
  have ge: "?ct \<le> next_event_time ?ct (procs s)" by (rule next_event_time_ge[OF ct])
  have le: "next_event_time ?ct (procs s) \<le> FAR" by (rule next_event_time_le_FAR)
  show "?ct \<le> run_until s fl ?k" using q ge by (simp add: run_until_eq)
  show "run_until s fl ?k \<le> FAR" using le by (simp add: run_until_eq min_def)
  show "run_until s fl ?k \<le> ?ct + 50" by (simp add: run_until_eq)
  show "run_until s fl ?k \<le> ?ct + remaining (procs s ! ?k) / ghz fl" by (simp add: run_until_eq)
  show "?ct < run_until s fl ?k" if "?ct < FAR"
    using q next_event_time_gt[OF that, of "procs s"] by (simp add: run_until_eq)
qed

lemma valid_level_positive:
  assumes "valid_power_model (pm s)" and "chosen_fi s < int (length (freqs (pm s)))"
  shows "0 < ghz (chosen_level s)" "0 \<le> power_w (chosen_level s)"
  using assms chosen_level_in_freqs[OF assms(2)]
  by (auto simp: valid_power_model_def list_all_iff)

lemma step_clock_inv:
  assumes inv: "clock_inv s" and st: "step se s s'"
  shows "clock_inv s'"
  using st
proof (cases rule: step_cases)
  case stop
  with inv show ?thesis by simp
next
  case idle
  from inv have ct: "current_time s \<le> FAR" by (simp add: clock_inv_def)
  from next_event_time_ge[OF ct, of "procs s"] idle(2) inv show ?thesis
    by (simp add: idle(3) clock_inv_def)
next
  case skip
  from inv have ct: "current_time s \<le> FAR" and v: "valid_power_model (pm s)"
    by (simp_all add: clock_inv_def)
  from run_until_bounds(1,2)[OF skip(1) valid_level_positive(1)[OF v skip(2)] ct] inv
  show ?thesis by (simp add: skip(5) clock_inv_def)
next
  case busy
  from inv have ct: "current_time s \<le> FAR" and v: "valid_power_model (pm s)"
    by (simp_all add: clock_inv_def)
  from run_until_bounds(1,2)[OF busy(1) valid_level_positive(1)[OF v busy(2)] ct] inv busy(4)
  show ?thesis by (simp add: busy(5) clock_inv_def)
qed

lemma later_refl: "later s s"
  by (simp add: later_def)

lemma later_trans:
  assumes "later a b" and "later b c"
  shows "later a c"
  using assms unfolding later_def by (auto intro: order_trans)

lemma job_marks_mono: "job_marks ct p \<Longrightarrow> ct \<le> ct' \<Longrightarrow> job_marks ct' p"
  by (auto simp: job_marks_def)

lemma marks_inv_nth: "marks_inv s \<Longrightarrow> i < length (procs s) \<Longrightarrow> job_marks (current_time s) (procs s ! i)"
  by (simp add: marks_inv_def list_all_length)

lemma ready_unfinished:
  assumes "marks_inv s" and "ready_queue (current_time s) (procs s) \<noteq> []"
  shows "finish_time (procs s ! chosen_proc s) = - 1"
proof -
  from chosen_proc_facts[OF assms(2)]
  have k: "chosen_proc s < length (procs s)" and r: "EPS < remaining (procs s ! chosen_proc s)"
    by simp_all
  from marks_inv_nth[OF assms(1) k] r show ?thesis by (auto simp: job_marks_def)
qed

lemma step_later:
  assumes inv: "clock_inv s" and mk: "marks_inv s" and st: "step se s s'"
  shows "later s s'"
  using st
proof (cases rule: step_cases)
  case stop
  then show ?thesis by (simp add: later_refl)
next
  case idle
  from inv have ct: "current_time s \<le> FAR" and ip: "0 \<le> idle_power (pm s)"
    by (simp_all add: clock_inv_def valid_power_model_def)
  from next_event_time_ge[OF ct, of "procs s"] ip show ?thesis
    by (simp add: idle(3) later_def)
next
  case skip
  from inv have ct: "current_time s \<le> FAR" and v: "valid_power_model (pm s)"
    by (simp_all add: clock_inv_def)
  from run_until_bounds(1)[OF skip(1) valid_level_positive(1)[OF v skip(2)] ct]
  show ?thesis by (simp add: skip(5) later_def)
next
  case busy
  let ?fl = "chosen_level s" and ?k = "chosen_proc s"
  let ?d = "run_until s ?fl ?k - current_time s"
  from inv have v: "valid_power_model (pm s)" by (simp add: clock_inv_def)
  note lv = valid_level_positive[OF v busy(2)]
  from busy(4) have d: "0 < ?d" by simp
  from chosen_proc_facts[OF busy(1)]
  have k: "?k < length (procs s)" and r: "EPS < remaining (procs s ! ?k)" by simp_all
  have fin: "finish_time (procs s ! ?k) = - 1" by (rule ready_unfinished[OF mk busy(1)])
  have w: "0 \<le> ?d * ghz ?fl" using d lv(1) by simp
  have e: "0 \<le> power_w ?fl * (?d / 1000)" using d lv(2) by simp
  have each: "pid (procs s' ! i) = pid (procs s ! i) \<and>
         arrival (procs s' ! i) = arrival (procs s ! i) \<and>
         burst (procs s' ! i) = burst (procs s ! i) \<and>
         remaining (procs s' ! i) \<le> remaining (procs s ! i) \<and>
         (0 \<le> remaining (procs s ! i) \<longrightarrow> 0 \<le> remaining (procs s' ! i)) \<and>
         (0 \<le> start_time (procs s ! i) \<longrightarrow> start_time (procs s' ! i) = start_time (procs s ! i)) \<and>
         (finish_time (procs s ! i) \<noteq> - 1 \<longrightarrow>
            finish_time (procs s' ! i) = finish_time (procs s ! i))"
    if "i < length (procs s)" for i
  proof (cases "i = ?k")
    case True
    have "0 < remaining (procs s ! ?k)" using r by (simp add: EPS_def)
    with w fin show ?thesis
      unfolding True busy(5) by (simp add: advance_chosen[OF k])
  next
    case False
    then show ?thesis unfolding busy(5) by (simp add: advance_other)
  qed
  from d e each show ?thesis unfolding later_def busy(5) by simp
qed

lemma step_marks_inv:
  assumes inv: "clock_inv s" and mk: "marks_inv s" and st: "step se s s'"
  shows "marks_inv s'"
  using st
proof (cases rule: step_cases)
  case stop
  with mk show ?thesis by simp
next
  case idle
  from inv have ct: "current_time s \<le> FAR" by (simp add: clock_inv_def)
  from next_event_time_ge[OF ct, of "procs s"] mk show ?thesis
    unfolding idle(3) marks_inv_def list_all_length by (auto intro: job_marks_mono)
next
  case skip
  from inv have ct: "current_time s \<le> FAR" and v: "valid_power_model (pm s)"
    by (simp_all add: clock_inv_def)
  from run_until_bounds(1)[OF skip(1) valid_level_positive(1)[OF v skip(2)] ct] mk
  show ?thesis
    unfolding skip(5) marks_inv_def list_all_length by (auto intro: job_marks_mono)
next
  case busy
  let ?fl = "chosen_level s" and ?k = "chosen_proc s"
  let ?d = "run_until s ?fl ?k - current_time s"
  from inv have c0: "0 \<le> current_time s" by (simp add: clock_inv_def)
  from busy(4) have d: "0 < ?d" by simp
  from chosen_proc_facts[OF busy(1)]
  have k: "?k < length (procs s)" and r: "EPS < remaining (procs s ! ?k)" by simp_all
  have fin: "finish_time (procs s ! ?k) = - 1" by (rule ready_unfinished[OF mk busy(1)])
  have "job_marks (current_time s') (procs s' ! i)" if i: "i < length (procs s)" for i
  proof (cases "i = ?k")
    case True
    from marks_inv_nth[OF mk k] have "start_time (procs s ! ?k) \<le> current_time s"
      by (simp add: job_marks_def)
    with d c0 fin show ?thesis
      unfolding True busy(5) job_marks_def by (simp add: advance_chosen[OF k])
  next
    case False
    from marks_inv_nth[OF mk i] d have "job_marks (current_time s + ?d) (procs s ! i)"
      by (auto intro: job_marks_mono)
    with False show ?thesis unfolding busy(5) by (simp add: advance_other)
  qed
  then show ?thesis unfolding marks_inv_def list_all_length busy(5) by simp
qed

section \<open>The states of a run\<close>

lemma sim_loop_Suc_cases:
  assumes "state_of (sim_loop (Suc n) se s) = Some b"
  obtains (stopped) "sim_loop n se s = Break b"
  | (stepped) a where "sim_loop n se s = Continue a" "step se a b"
  using assms by (cases "sim_loop n se s") (auto simp: step_def)

lemma run_invariant:
  assumes init: "P s" and pres: "\<And>a b. P a \<Longrightarrow> step se a b \<Longrightarrow> P b"
    and run: "state_of (sim_loop n se s) = Some b"
  shows "P b"
  using run
proof (induction n arbitrary: b)
  case 0
  with init show ?case by simp
next
  case (Suc n)
  from Suc.prems show ?case
  proof (cases rule: sim_loop_Suc_cases)
    case stopped
    then show ?thesis using Suc.IH by simp
  next
    case (stepped a)
    then have "P a" using Suc.IH by simp
    then show ?thesis using stepped(2) by (rule pres)
  qed
qed

lemma run_invs:
  assumes "clock_inv s" and "marks_inv s" and "state_of (sim_loop n se s) = Some b"
  shows "clock_inv b" "marks_inv b" "later s b"
proof -
  have "clock_inv b \<and> marks_inv b \<and> later s b"
  proof (rule run_invariant[where P = "\<lambda>x. clock_inv x \<and> marks_inv x \<and> later s x", OF _ _ assms(3)])
    show "clock_inv s \<and> marks_inv s \<and> later s s" using assms(1,2) by (simp add: later_refl)
  next
    fix a b assume a: "clock_inv a \<and> marks_inv a \<and> later s a" and st: "step se a b"
    from a st show "clock_inv b \<and> marks_inv b \<and> later s b"
      by (auto intro: step_clock_inv step_marks_inv later_trans step_later)
  qed
  then show "clock_inv b" "marks_inv b" "later s b" by simp_all
qed

lemma sim_loop_add:
  "sim_loop (m + j) se s =
     (case sim_loop m se s of Continue a \<Rightarrow> sim_loop j se a | Break a \<Rightarrow> Break a | Fault f \<Rightarrow> Fault f)"
proof (induction j)
  case 0
  show ?case by (cases "sim_loop m se s") simp_all
next
  case (Suc j)
  show ?case by (cases "sim_loop m se s") (simp_all add: Suc)
qed

lemma reset_invs:
  assumes "valid_power_model (pm s)"
  shows "clock_inv (reset s)" "marks_inv (reset s)"
  using assms
  by (simp_all add: clock_inv_def marks_inv_def reset_def job_marks_def list_all_iff FAR_def)

lemma run_two_points:
  assumes v: "valid_power_model (pm s)"
    and a: "state_of (simulate_eadvfs m se s) = Some a"
    and b: "state_of (simulate_eadvfs (m + j) se s) = Some b"
  shows "clock_inv a" "marks_inv a" "clock_inv b" "marks_inv b" "later (reset s) a" "later a b"
proof -
  note i = reset_invs[OF v]
  from a have a': "state_of (sim_loop m se (reset s)) = Some a" by (simp add: simulate_eadvfs_def)
  from b have b': "state_of (sim_loop (m + j) se (reset s)) = Some b" by (simp add: simulate_eadvfs_def)
  show ca: "clock_inv a" and ma: "marks_inv a" and "later (reset s) a"
    using run_invs[OF i a'] by simp_all
  show "clock_inv b" and "marks_inv b" using run_invs[OF i b'] by simp_all
  show "later a b"
  proof (cases "sim_loop m se (reset s)")
    case (Continue x)
    with a' have x: "x = a" by simp
    from b' Continue x have "state_of (sim_loop j se a) = Some b" by (simp add: sim_loop_add)
    from run_invs(3)[OF ca ma this] show ?thesis .
  next
    case (Break x)
    with a' b' have "b = a" by (simp add: sim_loop_add)
    then show ?thesis by (simp add: later_refl)
  next
    case (Fault f)
    with a' show ?thesis by simp
  qed
qed

lemma valid_PowerModel_init: "valid_power_model PowerModel_init"
  by (simp add: valid_power_model_def PowerModel_init_def)


lemma continue_cases:
  assumes "iteration se s = Continue s'"
  obtains
    (idle) "ready_queue (current_time s) (procs s) = []"
      "next_event_time (current_time s) (procs s) < FAR"
      "s' = s\<lparr>energy := energy s + idle_power (pm s) *
                  ((next_event_time (current_time s) (procs s) - current_time s) / 1000),
               current_time := next_event_time (current_time s) (procs s)\<rparr>"
  | (skip) "ready_queue (current_time s) (procs s) \<noteq> []"
      "chosen_fi s < int (length (freqs (pm s)))" "ghz (chosen_level s) \<noteq> 0"
      "run_until s (chosen_level s) (chosen_proc s) \<le> current_time s"
      "s' = s\<lparr>current_time := run_until s (chosen_level s) (chosen_proc s)\<rparr>"
  | (busy) "ready_queue (current_time s) (procs s) \<noteq> []"
      "chosen_fi s < int (length (freqs (pm s)))" "ghz (chosen_level s) \<noteq> 0"
      "current_time s < run_until s (chosen_level s) (chosen_proc s)"
      "s' = advance s (chosen_level s) (chosen_proc s)
              (run_until s (chosen_level s) (chosen_proc s) - current_time s)"
      "any_left (procs s')" "current_time s' \<le> se"
proof (cases "ready_queue (current_time s) (procs s) = []")
  case True
  with assms that(1) show ?thesis by (simp add: iteration_idle split: if_splits)
next
  case False
  from assms have st: "step se s s'" by (simp add: step_def)
  from st show ?thesis
  proof (cases rule: step_cases)
    case stop
    with False show ?thesis by simp
  next
    case idle
    with False show ?thesis by simp
  next
    case skip
    then show ?thesis using that(2) by blast
  next
    case busy
    from assms iteration_busy[OF busy(1-3), of se] busy(4,5)
    have "any_left (procs s')" "current_time s' \<le> se"
      by (auto split: if_splits)
    with busy show ?thesis using that(3) by blast
  qed
qed

lemma break_cases:
  assumes "iteration se s = Break s'"
  obtains
    (stop) "ready_queue (current_time s) (procs s) = []"
      "\<not> next_event_time (current_time s) (procs s) < FAR" "s' = s"
  | (busy) "ready_queue (current_time s) (procs s) \<noteq> []"
      "chosen_fi s < int (length (freqs (pm s)))" "ghz (chosen_level s) \<noteq> 0"
      "current_time s < run_until s (chosen_level s) (chosen_proc s)"
      "s' = advance s (chosen_level s) (chosen_proc s)
              (run_until s (chosen_level s) (chosen_proc s) - current_time s)"
      "\<not> any_left (procs s') \<or> se < current_time s'"
proof (cases "ready_queue (current_time s) (procs s) = []")
  case True
  with assms that(1) show ?thesis by (simp add: iteration_idle split: if_splits)
next
  case False
  from assms have st: "step se s s'" by (simp add: step_def)
  from st show ?thesis
  proof (cases rule: step_cases)
    case stop
    with False show ?thesis by simp
  next
    case idle
    with False show ?thesis by simp
  next
    case skip
    with assms iteration_busy[OF skip(1-3), of se] show ?thesis by simp
  next
    case busy
    from assms iteration_busy[OF busy(1-3), of se] busy(4,5)
    have "\<not> any_left (procs s') \<or> se < current_time s'"
      by (auto split: if_splits)
    with busy show ?thesis using that(2) by blast
  qed
qed

lemma sim_loop_Break_origin:
  assumes "sim_loop n se s = Break b"
  shows "\<exists>m a. m < n \<and> sim_loop m se s = Continue a \<and> iteration se a = Break b"
  using assms
proof (induction n)
  case 0
  then show ?case by simp
next
  case (Suc n)
  show ?case
  proof (cases "sim_loop n se s")
    case (Continue a)
    with Suc.prems have "iteration se a = Break b" by simp
    with Continue show ?thesis by blast
  next
    case (Break a)
    with Suc.prems have "sim_loop n se s = Break b" by simp
    from Suc.IH[OF this] show ?thesis using less_Suc_eq by blast
  next
    case (Fault f)
    with Suc.prems show ?thesis by simp
  qed
qed

lemma continue_invariant:
  assumes init: "P s" and pres: "\<And>a b. P a \<Longrightarrow> iteration se a = Continue b \<Longrightarrow> P b"
    and run: "sim_loop n se s = Continue b"
  shows "P b"
  using run
proof (induction n arbitrary: b)
  case 0
  with init show ?case by simp
next
  case (Suc n)
  show ?case
  proof (cases "sim_loop n se s")
    case (Continue a)
    then have "P a" by (rule Suc.IH)
    moreover from Suc.prems Continue have "iteration se a = Continue b" by simp
    ultimately show ?thesis by (rule pres)
  next
    case (Break a)
    with Suc.prems show ?thesis by simp
  next
    case (Fault f)
    with Suc.prems show ?thesis by simp
  qed
qed

lemma idle_or_left:
  assumes "busy_time s = 0 \<or> any_left (procs s)" and "iteration se s = Continue s'"
  shows "busy_time s' = 0 \<or> any_left (procs s')"
  using assms(2)
proof (cases rule: continue_cases)
  case idle
  with assms(1) show ?thesis by simp
next
  case skip
  with assms(1) show ?thesis by simp
next
  case busy
  then show ?thesis by simp
qed

lemma makespan_fold_init: "m0 \<le> fold (\<lambda>p m. max m (finish_time p)) ps m0"
proof (induction ps arbitrary: m0)
  case Nil show ?case by simp
next
  case (Cons q qs)
  from Cons[of "max m0 (finish_time q)"] show ?case by simp
qed

lemma makespan_fold_ge:
  "p \<in> set ps \<Longrightarrow> finish_time p \<le> fold (\<lambda>p m. max m (finish_time p)) ps m0"
proof (induction ps arbitrary: m0)
  case Nil then show ?case by simp
next
  case (Cons q qs)
  show ?case
  proof (cases "p = q")
    case True
    from makespan_fold_init[of "max m0 (finish_time q)" qs] True show ?thesis by simp
  next
    case False
    with Cons.prems have "p \<in> set qs" by simp
    from Cons.IH[OF this] show ?thesis by simp
  qed
qed

lemma makespan_ge: "0 \<le> makespan s" "p \<in> set (procs s) \<Longrightarrow> finish_time p \<le> makespan s"
  unfolding makespan_def by (rule makespan_fold_init, rule makespan_fold_ge)

section \<open>The state of a job over a run\<close>

text \<open>
  Claim C7. In a run of \<^verbatim>\<open>simulate_eadvfs\<close> with a valid power model on jobs of
  non-negative burst, take the state \<open>a\<close> after \<open>m\<close> passes and the state \<open>b\<close> after
  \<open>m + j\<close> passes. For every job: the remaining demand in \<open>b\<close> is not negative and not
  above the one in \<open>a\<close>, which is not above the burst; a finish mark set in \<open>a\<close> (other
  than -1) comes with a remaining demand of at most \<open>EPS\<close> and is the same in \<open>b\<close>; and
  when start mark and finish mark are both set in \<open>b\<close>, the start is not after the
  finish.
\<close>

theorem job_state_over_run:
  assumes "valid_power_model (pm s)" and "\<forall>p\<in>set (procs s). 0 \<le> burst p"
    and "state_of (simulate_eadvfs m se s) = Some a"
    and "state_of (simulate_eadvfs (m + j) se s) = Some b"
    and "i < length (procs s)"
  shows "0 \<le> remaining (procs b ! i) \<and>
         remaining (procs b ! i) \<le> remaining (procs a ! i) \<and>
         remaining (procs a ! i) \<le> burst (procs s ! i) \<and>
         (finish_time (procs a ! i) \<noteq> - 1 \<longrightarrow>
            remaining (procs a ! i) \<le> EPS \<and>
            finish_time (procs b ! i) = finish_time (procs a ! i)) \<and>
         (0 \<le> start_time (procs b ! i) \<and> finish_time (procs b ! i) \<noteq> - 1 \<longrightarrow>
            start_time (procs b ! i) \<le> finish_time (procs b ! i))"
proof -
  note r = run_two_points[OF assms(1,3,4)]
  have l0: "length (procs (reset s)) = length (procs s)" by (simp add: reset_def)
  have r0: "remaining (procs (reset s) ! i) = burst (procs s ! i)"
    using assms(5) by (simp add: reset_def)
  have b0: "0 \<le> burst (procs s ! i)" using assms(2,5) by simp
  from r(5) assms(5) l0 r0 b0
  have a1: "remaining (procs a ! i) \<le> burst (procs s ! i)" "0 \<le> remaining (procs a ! i)"
    and la: "length (procs a) = length (procs s)"
    unfolding later_def by auto
  from r(6) assms(5) la a1(2)
  have b1: "remaining (procs b ! i) \<le> remaining (procs a ! i)" "0 \<le> remaining (procs b ! i)"
    "finish_time (procs a ! i) \<noteq> - 1 \<longrightarrow> finish_time (procs b ! i) = finish_time (procs a ! i)"
    and lb: "length (procs b) = length (procs s)"
    unfolding later_def by auto
  from marks_inv_nth[OF r(2)] assms(5) la
  have ma: "finish_time (procs a ! i) \<noteq> - 1 \<longrightarrow> remaining (procs a ! i) \<le> EPS"
    by (simp add: job_marks_def)
  from marks_inv_nth[OF r(4)] assms(5) lb
  have mb: "finish_time (procs b ! i) \<noteq> - 1 \<longrightarrow> start_time (procs b ! i) \<le> finish_time (procs b ! i)"
    by (simp add: job_marks_def)
  from a1 b1 ma mb show ?thesis by blast
qed

lemma two_jobs_run:
  "pm two_jobs = PowerModel_init"
  "list_all (\<lambda>p. 0 \<le> burst p) (procs two_jobs)"
  "length (procs two_jobs) = 2"
  "state_of (simulate_eadvfs 2 100000 two_jobs) \<noteq> None"
  "state_of (simulate_eadvfs 4 100000 two_jobs) \<noteq> None"
  "finish_time (procs (the (state_of (simulate_eadvfs 2 100000 two_jobs))) ! 1) = 40"
  "start_time (procs (the (state_of (simulate_eadvfs 4 100000 two_jobs))) ! 1) = 20"
  by code_simp+

theorem job_state_over_run_witness:
  "valid_power_model (pm two_jobs) \<and> list_all (\<lambda>p. 0 \<le> burst p) (procs two_jobs) \<and>
   state_of (simulate_eadvfs 2 100000 two_jobs) \<noteq> None \<and>
   state_of (simulate_eadvfs (2 + 2) 100000 two_jobs) \<noteq> None \<and>
   (1 :: nat) < length (procs two_jobs) \<and>
   finish_time (procs (the (state_of (simulate_eadvfs 2 100000 two_jobs))) ! 1) = 40 \<and>
   finish_time (procs (the (state_of (simulate_eadvfs (2 + 2) 100000 two_jobs))) ! 1) = 40 \<and>
   start_time (procs (the (state_of (simulate_eadvfs (2 + 2) 100000 two_jobs))) ! 1) = 20 \<and>
   0 \<le> remaining (procs (the (state_of (simulate_eadvfs (2 + 2) 100000 two_jobs))) ! 1)"
proof -
  let ?a = "the (state_of (simulate_eadvfs 2 100000 two_jobs))"
  let ?b = "the (state_of (simulate_eadvfs (2 + 2) 100000 two_jobs))"
  have v: "valid_power_model (pm two_jobs)"
    by (simp add: two_jobs_run(1) valid_PowerModel_init)
  have bs: "\<forall>p\<in>set (procs two_jobs). 0 \<le> burst p"
    using two_jobs_run(2) by (simp add: list_all_iff)
  have n4: "state_of (simulate_eadvfs (2 + 2) 100000 two_jobs) \<noteq> None"
    using two_jobs_run(5) by simp
  have a: "state_of (simulate_eadvfs 2 100000 two_jobs) = Some ?a"
    using two_jobs_run(4) by simp
  have b: "state_of (simulate_eadvfs (2 + 2) 100000 two_jobs) = Some ?b"
    using n4 by simp
  have i: "(1 :: nat) < length (procs two_jobs)" by (simp add: two_jobs_run(3))
  have sb: "start_time (procs ?b ! 1) = 20" using two_jobs_run(7) by simp
  from job_state_over_run[OF v bs a b i] two_jobs_run(6)
  have "finish_time (procs ?b ! 1) = 40" "0 \<le> remaining (procs ?b ! 1)" by simp_all
  with v two_jobs_run(2,4,6) n4 i sb show ?thesis by simp
qed

section \<open>Busy time, clock and utilisation\<close>

lemma makespan_fold_le:
  "m0 \<le> c \<Longrightarrow> \<forall>p\<in>set ps. finish_time p \<le> c \<Longrightarrow> fold (\<lambda>p m. max m (finish_time p)) ps m0 \<le> c"
  by (induction ps arbitrary: m0) simp_all

lemma makespan_le_clock:
  assumes "clock_inv s" and "marks_inv s"
  shows "makespan s \<le> current_time s"
  unfolding makespan_def
proof (rule makespan_fold_le)
  from assms(1) show c0: "0 \<le> current_time s" by (simp add: clock_inv_def)
  show "\<forall>p\<in>set (procs s). finish_time p \<le> current_time s"
  proof
    fix p assume "p \<in> set (procs s)"
    with assms(2) have "job_marks (current_time s) p" by (simp add: marks_inv_def list_all_iff)
    with c0 show "finish_time p \<le> current_time s"
      by (cases "finish_time p = - 1") (simp_all add: job_marks_def)
  qed
qed

lemma all_done_busy_le_makespan:
  assumes ca: "clock_inv a" and ma: "marks_inv a"
    and g: "busy_time a = 0 \<or> any_left (procs a)"
    and br: "iteration se a = Break b" and alld: "\<not> any_left (procs b)"
  shows "busy_time b \<le> makespan b"
  using br
proof (cases rule: break_cases)
  case stop
  with g alld have "busy_time b = 0" by simp
  with makespan_ge(1)[of b] show ?thesis by simp
next
  case busy
  let ?k = "chosen_proc a"
  from br have st: "step se a b" by (simp add: step_def)
  from step_clock_inv[OF ca st] have cb: "busy_time b \<le> current_time b"
    by (simp add: clock_inv_def)
  from chosen_proc_facts(1)[OF busy(1)] have k: "?k < length (procs a)" .
  then have kb: "?k < length (procs b)" by (simp add: busy(5))
  then have mem: "procs b ! ?k \<in> set (procs b)" by simp
  with alld have "remaining (procs b ! ?k) \<le> EPS" by (auto simp: any_left_def)
  then have "finish_time (procs b ! ?k) = current_time b"
    unfolding busy(5) by (simp add: advance_chosen[OF k])
  with makespan_ge(2)[OF mem] cb show ?thesis by simp
qed

text \<open>
  Claim C10, as the code has it. At every point of a run with a valid power model the
  busy time is at most the clock. When the loop is left with every job complete, the
  busy time is at most the makespan the report prints (the largest finish mark), the
  makespan is at most the clock, and the utilisation printed is at most 100 percent.
\<close>

theorem busy_time_le_clock:
  assumes v: "valid_power_model (pm s)" and run: "state_of (simulate_eadvfs n se s) = Some b"
  shows "busy_time b \<le> current_time b \<and>
         (simulate_eadvfs n se s = Break b \<and> \<not> any_left (procs b) \<longrightarrow>
            busy_time b \<le> makespan b \<and> makespan b \<le> current_time b \<and>
            cpu_utilization b \<le> 100)"
proof -
  note i = reset_invs[OF v]
  from run have run': "state_of (sim_loop n se (reset s)) = Some b"
    by (simp add: simulate_eadvfs_def)
  note ib = run_invs[OF i run']
  from ib(1) have p1: "busy_time b \<le> current_time b" by (simp add: clock_inv_def)
  have p2: "busy_time b \<le> makespan b \<and> makespan b \<le> current_time b \<and> cpu_utilization b \<le> 100"
    if br: "simulate_eadvfs n se s = Break b" and alld: "\<not> any_left (procs b)"
  proof -
    from br have "sim_loop n se (reset s) = Break b" by (simp add: simulate_eadvfs_def)
    from sim_loop_Break_origin[OF this] obtain m a where
      a: "sim_loop m se (reset s) = Continue a" "iteration se a = Break b" by blast
    from a(1) have sa: "state_of (sim_loop m se (reset s)) = Some a" by simp
    note ia = run_invs[OF i sa]
    have g: "busy_time a = 0 \<or> any_left (procs a)"
    proof (rule continue_invariant[where P = "\<lambda>x. busy_time x = 0 \<or> any_left (procs x)", OF _ _ a(1)])
      show "busy_time (reset s) = 0 \<or> any_left (procs (reset s))" by (simp add: reset_def)
    next
      fix x y assume "busy_time x = 0 \<or> any_left (procs x)" "iteration se x = Continue y"
      then show "busy_time y = 0 \<or> any_left (procs y)" by (rule idle_or_left)
    qed
    have le: "busy_time b \<le> makespan b"
      by (rule all_done_busy_le_makespan[OF ia(1,2) g a(2) alld])
    have ms: "makespan b \<le> current_time b" by (rule makespan_le_clock[OF ib(1,2)])
    from ib(1) have b0: "0 \<le> busy_time b" by (simp add: clock_inv_def)
    have "busy_time b \<le> max 1 (makespan b)" using le by simp
    moreover have "0 < max 1 (makespan b)" by simp
    ultimately have "busy_time b / max 1 (makespan b) \<le> 1" by (simp only: divide_le_eq_1_pos)
    then have "busy_time b / max 1 (makespan b) * 100 \<le> 1 * 100"
      by (rule mult_right_mono) simp
    then have "cpu_utilization b \<le> 100" unfolding cpu_utilization_def by simp
    with le ms show ?thesis by simp
  qed
  from p1 p2 show ?thesis by blast
qed

lemma two_jobs_done:
  "simulate_eadvfs 4 100000 two_jobs = Break (the (state_of (simulate_eadvfs 4 100000 two_jobs)))"
  "\<not> any_left (procs (the (state_of (simulate_eadvfs 4 100000 two_jobs))))"
  "busy_time (the (state_of (simulate_eadvfs 4 100000 two_jobs))) = 195 / 2"
  by code_simp+

theorem busy_time_le_clock_witness:
  "valid_power_model (pm two_jobs) \<and>
   simulate_eadvfs 4 100000 two_jobs = Break (the (state_of (simulate_eadvfs 4 100000 two_jobs))) \<and>
   \<not> any_left (procs (the (state_of (simulate_eadvfs 4 100000 two_jobs)))) \<and>
   busy_time (the (state_of (simulate_eadvfs 4 100000 two_jobs))) = 195 / 2 \<and>
   195 / 2 \<le> makespan (the (state_of (simulate_eadvfs 4 100000 two_jobs))) \<and>
   cpu_utilization (the (state_of (simulate_eadvfs 4 100000 two_jobs))) \<le> 100"
proof -
  let ?b = "the (state_of (simulate_eadvfs 4 100000 two_jobs))"
  have v: "valid_power_model (pm two_jobs)"
    by (simp add: two_jobs_run(1) valid_PowerModel_init)
  have r: "state_of (simulate_eadvfs 4 100000 two_jobs) = Some ?b"
    using two_jobs_run(5) by simp
  from busy_time_le_clock[OF v r] two_jobs_done
  have "195 / 2 \<le> makespan ?b" "cpu_utilization ?b \<le> 100" by simp_all
  with v two_jobs_done show ?thesis by simp
qed

text \<open>
  When the horizon stops the run the makespan of the report covers the finished jobs
  only: with the jobs (0, 10) and (100001, 1000) and the horizon 100000 of \<^verbatim>\<open>main\<close>, the
  run ends after three passes with 55 ms of busy time, a makespan of 5 ms and a
  utilisation of 1100 percent.
\<close>

theorem utilization_above_100_on_forced_stop:
  "simulate_eadvfs 3 100000 forced_stop_jobs
     = Break (the (state_of (simulate_eadvfs 3 100000 forced_stop_jobs))) \<and>
   busy_time (the (state_of (simulate_eadvfs 3 100000 forced_stop_jobs))) = 55 \<and>
   makespan (the (state_of (simulate_eadvfs 3 100000 forced_stop_jobs))) = 5 \<and>
   cpu_utilization (the (state_of (simulate_eadvfs 3 100000 forced_stop_jobs))) = 1100"
  by code_simp

section \<open>Energy accounting\<close>

lemma event_of_idle:
  assumes "ready_queue (current_time s) (procs s) = []"
  shows "event_of s =
     (if next_event_time (current_time s) (procs s) < FAR
      then Some (Idle (next_event_time (current_time s) (procs s) - current_time s)) else None)"
  using assms by (simp add: event_of_def next_arrival_eq next_arrival_found_iff Let_def)

lemma event_of_busy:
  assumes "ready_queue (current_time s) (procs s) \<noteq> []"
    and "chosen_fi s < int (length (freqs (pm s)))" and "ghz (chosen_level s) \<noteq> 0"
  shows "event_of s =
     (if run_until s (chosen_level s) (chosen_proc s) \<le> current_time s then None
      else Some (Run (pid (procs s ! chosen_proc s))
                   (run_until s (chosen_level s) (chosen_proc s) - current_time s) (chosen_level s)))"
  using assms by (simp add: event_of_def Let_def split: prod.splits)

lemma step_event:
  assumes "step se s s'"
  shows "pm s' = pm s \<and>
         energy s' = energy s + sum_list (map (event_energy (pm s)) (case event_of s of Some e \<Rightarrow> [e] | None \<Rightarrow> [])) \<and>
         gantt s' = foldl log_event (gantt s) (case event_of s of Some e \<Rightarrow> [e] | None \<Rightarrow> [])"
  using assms
proof (cases rule: step_cases)
  case stop
  have "event_of s = None \<or> (\<exists>d. event_of s = Some (Idle d))"
    by (simp add: event_of_idle[OF stop(1)])
  moreover have "iteration se s = Break s \<or> s = s\<lparr>energy := energy s + idle_power (pm s) *
                  ((next_event_time (current_time s) (procs s) - current_time s) / 1000),
               current_time := next_event_time (current_time s) (procs s)\<rparr>"
    using assms stop by (auto simp: step_def iteration_idle split: if_splits)
  ultimately show ?thesis
  proof (cases "next_event_time (current_time s) (procs s) < FAR")
    case True
    with assms stop have e: "s = s\<lparr>energy := energy s + idle_power (pm s) *
                  ((next_event_time (current_time s) (procs s) - current_time s) / 1000),
               current_time := next_event_time (current_time s) (procs s)\<rparr>"
      by (simp add: step_def iteration_idle)
    have "energy s = energy s + idle_power (pm s) *
                  ((next_event_time (current_time s) (procs s) - current_time s) / 1000)"
      by (subst e) simp
    with True stop show ?thesis by (simp add: event_of_idle)
  next
    case False
    with stop show ?thesis by (simp add: event_of_idle)
  qed
next
  case idle
  then show ?thesis by (simp add: event_of_idle)
next
  case skip
  then show ?thesis by (simp add: event_of_busy)
next
  case busy
  then show ?thesis by (simp add: event_of_busy)
qed

lemma event_of_ok:
  assumes "valid_power_model (pm s)" and "event_of s = Some e"
  shows "event_ok (pm s) e"
proof (cases "ready_queue (current_time s) (procs s) = []")
  case True
  let ?net = "next_event_time (current_time s) (procs s)"
  from assms(2) True have lt: "?net < FAR" and e: "e = Idle (?net - current_time s)"
    by (auto simp: event_of_idle split: if_splits)
  from lt next_event_time_attained[of "current_time s" "procs s"] have "current_time s < ?net"
    by auto
  with e show ?thesis by simp
next
  case False
  from assms(2) False have ok: "chosen_fi s < int (length (freqs (pm s)))" "ghz (chosen_level s) \<noteq> 0"
    by (auto simp: event_of_def Let_def split: prod.splits if_splits)
  from assms(2) event_of_busy[OF False ok]
  have e: "e = Run (pid (procs s ! chosen_proc s))
                   (run_until s (chosen_level s) (chosen_proc s) - current_time s) (chosen_level s)"
    and d: "current_time s < run_until s (chosen_level s) (chosen_proc s)"
    by (auto split: if_splits)
  from valid_level_positive(2)[OF assms(1) ok(1)] chosen_level_in_freqs[OF ok(1)] d
  show ?thesis by (simp add: e)
qed

lemma run_events:
  assumes "state_of (sim_loop n se s) = Some b"
  shows "pm b = pm s \<and>
         energy b = energy s + sum_list (map (event_energy (pm s)) (events n se s)) \<and>
         gantt b = foldl log_event (gantt s) (events n se s)"
  using assms
proof (induction n arbitrary: b)
  case 0
  then show ?case by simp
next
  case (Suc n)
  from Suc.prems show ?case
  proof (cases rule: sim_loop_Suc_cases)
    case stopped
    with Suc.IH[of b] show ?thesis by simp
  next
    case (stepped a)
    with Suc.IH[of a] have ia: "pm a = pm s"
      "energy a = energy s + sum_list (map (event_energy (pm s)) (events n se s))"
      "gantt a = foldl log_event (gantt s) (events n se s)" by simp_all
    from step_event[OF stepped(2)] ia stepped(1) show ?thesis
      by (simp add: add.assoc)
  qed
qed

lemma run_events_ok:
  assumes "valid_power_model (pm s)"
  shows "list_all (event_ok (pm s)) (events n se s)"
proof (induction n)
  case 0
  show ?case by simp
next
  case (Suc n)
  show ?case
  proof (cases "sim_loop n se s")
    case (Continue a)
    then have sa: "state_of (sim_loop n se s) = Some a" by simp
    from run_events[OF sa] have pa: "pm a = pm s" by simp
    show ?thesis
    proof (cases "event_of a")
      case None
      with Continue Suc show ?thesis by simp
    next
      case (Some e)
      from event_of_ok[OF _ Some] assms pa have "event_ok (pm s) e" by simp
      with Continue Some Suc show ?thesis by simp
    qed
  next
    case (Break a)
    with Suc show ?thesis by simp
  next
    case (Fault f)
    with Suc show ?thesis by simp
  qed
qed

text \<open>
  Claim C6, as the code has it. In a run with a valid power model the energy after
  \<open>m\<close> passes is at most the energy after \<open>m + j\<close> passes, and the energy after any
  number of passes is the exact sum, over the intervals of these passes, of power times
  seconds: the power of the level chosen in that pass for a run interval, the idle
  power for an idle gap. Every interval has positive length, and every run interval is
  at a level of the power model, whose power is not negative. The timeline is these run
  intervals merged in order into the timeline the simulator had before the run.
\<close>

theorem energy_accounting:
  assumes v: "valid_power_model (pm s)"
    and a: "state_of (simulate_eadvfs m se s) = Some a"
    and b: "state_of (simulate_eadvfs (m + j) se s) = Some b"
  shows "energy a \<le> energy b \<and>
         energy b = sum_list (map (event_energy (pm s)) (events (m + j) se (reset s))) \<and>
         gantt b = foldl log_event (gantt s) (events (m + j) se (reset s)) \<and>
         list_all (event_ok (pm s)) (events (m + j) se (reset s))"
proof -
  from run_two_points(6)[OF v a b] have mono: "energy a \<le> energy b" by (simp add: later_def)
  from b have b': "state_of (sim_loop (m + j) se (reset s)) = Some b"
    by (simp add: simulate_eadvfs_def)
  from run_events[OF b']
  have "energy b = sum_list (map (event_energy (pm s)) (events (m + j) se (reset s)))"
    "gantt b = foldl log_event (gantt s) (events (m + j) se (reset s))"
    by (simp_all add: reset_load_fields)
  moreover from run_events_ok[of "reset s" "m + j" se] v
  have "list_all (event_ok (pm s)) (events (m + j) se (reset s))"
    by (simp add: reset_load_fields)
  ultimately show ?thesis using mono by simp
qed

lemma two_jobs_energy:
  "energy (the (state_of (simulate_eadvfs 2 100000 two_jobs))) = 13 / 125"
  "sum_list (map (event_energy (pm two_jobs)) (events (2 + 2) 100000 (reset two_jobs))) = 1071 / 4000"
  "foldl log_event (gantt two_jobs) (events (2 + 2) 100000 (reset two_jobs))
     = [(1, 20), (2, 20), (1, 115 / 2)]"
  by code_simp+

theorem energy_accounting_witness:
  "valid_power_model (pm two_jobs) \<and>
   state_of (simulate_eadvfs 2 100000 two_jobs) \<noteq> None \<and>
   state_of (simulate_eadvfs (2 + 2) 100000 two_jobs) \<noteq> None \<and>
   energy (the (state_of (simulate_eadvfs 2 100000 two_jobs))) = 13 / 125 \<and>
   energy (the (state_of (simulate_eadvfs (2 + 2) 100000 two_jobs))) = 1071 / 4000 \<and>
   gantt (the (state_of (simulate_eadvfs (2 + 2) 100000 two_jobs)))
     = [(1, 20), (2, 20), (1, 115 / 2)]"
proof -
  let ?a = "the (state_of (simulate_eadvfs 2 100000 two_jobs))"
  let ?b = "the (state_of (simulate_eadvfs (2 + 2) 100000 two_jobs))"
  have v: "valid_power_model (pm two_jobs)"
    by (simp add: two_jobs_run(1) valid_PowerModel_init)
  have n4: "state_of (simulate_eadvfs (2 + 2) 100000 two_jobs) \<noteq> None"
    using two_jobs_run(5) by simp
  have a: "state_of (simulate_eadvfs 2 100000 two_jobs) = Some ?a"
    using two_jobs_run(4) by simp
  have b: "state_of (simulate_eadvfs (2 + 2) 100000 two_jobs) = Some ?b"
    using n4 by simp
  from energy_accounting[OF v a b] two_jobs_energy(2,3)
  have "energy ?b = 1071 / 4000" "gantt ?b = [(1, 20), (2, 20), (1, 115 / 2)]"
    by simp_all
  with v two_jobs_run(4) n4 two_jobs_energy(1) show ?thesis by simp
qed

text \<open>
  The sum cannot be taken over the entries of the timeline, one level per entry: the
  timeline merges consecutive intervals of one job whatever their levels. One job
  (0, 400) runs three intervals of 50 ms at 2.0GHz, one of 50 ms at 1.5GHz and one of
  12.5 ms at 2.0GHz; the timeline is the single entry (1, 212.5), the energy is
  0.86125 J, and 212.5 ms at any one of the three levels gives another figure.
\<close>

theorem merged_timeline_entry_mixes_levels:
  "simulate_eadvfs 5 100000 long_job
     = Break (the (state_of (simulate_eadvfs 5 100000 long_job))) \<and>
   gantt (the (state_of (simulate_eadvfs 5 100000 long_job))) = [(1, 425 / 2)] \<and>
   energy (the (state_of (simulate_eadvfs 5 100000 long_job))) = 689 / 800 \<and>
   map power_w (freqs (pm (the (state_of (simulate_eadvfs 5 100000 long_job)))))
     = [15 / 10, 26 / 10, 45 / 10] \<and>
   (425 / 2 / 1000) * (15 / 10) \<noteq> (689 / 800 :: real) \<and>
   (425 / 2 / 1000) * (26 / 10) \<noteq> (689 / 800 :: real) \<and>
   (425 / 2 / 1000) * (45 / 10) \<noteq> (689 / 800 :: real)"
  by code_simp

section \<open>Leaving the loop\<close>

lemma sim_loop_front:
  "sim_loop (Suc n) se s =
     (case iteration se s of Continue s' \<Rightarrow> sim_loop n se s' | Break s' \<Rightarrow> Break s' | Fault f \<Rightarrow> Fault f)"
proof -
  have "sim_loop (1 + n) se s =
     (case sim_loop 1 se s of Continue a \<Rightarrow> sim_loop n se a | Break a \<Rightarrow> Break a | Fault f \<Rightarrow> Fault f)"
    by (rule sim_loop_add)
  then show ?thesis by simp
qed

lemma no_fault:
  assumes "valid_power_model (pm s)"
  shows "iteration se s \<noteq> Fault f"
proof (cases "ready_queue (current_time s) (procs s) = []")
  case True
  then show ?thesis by (simp add: iteration_idle)
next
  case False
  from assms have "2 \<le> length (freqs (pm s))" by (simp add: valid_power_model_def)
  then have fi: "chosen_fi s < int (length (freqs (pm s)))" by (rule chosen_fi_upper)
  from valid_level_positive(1)[OF assms fi] have "ghz (chosen_level s) \<noteq> 0" by simp
  from iteration_busy[OF False fi this, of se] show ?thesis by (simp split: if_splits)
qed





text \<open>
  A pass whose run interval has length 0 changes nothing and goes on: \<^verbatim>\<open>continue\<close> is
  reached before the test of the horizon, so from such a state the loop is never left.
  Over the reals this needs a clock at the sentinel; in \<^verbatim>\<open>double\<close> it happens as soon as
  the interval is too short for the clock, as at clock 1e17 with a remaining demand
  of 10.
\<close>

lemma zero_length_pass_repeats:
  assumes "ready_queue (current_time s) (procs s) \<noteq> []"
    and "chosen_fi s < int (length (freqs (pm s)))" and "ghz (chosen_level s) \<noteq> 0"
    and "run_until s (chosen_level s) (chosen_proc s) = current_time s"
  shows "sim_loop n se s = Continue s"
proof (induction n)
  case 0
  show ?case by simp
next
  case (Suc n)
  have "iteration se s = Continue s"
    unfolding iteration_busy[OF assms(1-3)] assms(4) by simp
  with Suc show ?case by simp
qed







section \<open>Running twice\<close>

text \<open>
  Claim C8. \<^verbatim>\<open>simulate_eadvfs\<close> resets the energy, the busy time, the clock and the
  processes, and leaves the timeline as it is. A second call on the same simulator
  therefore does not produce the timeline of the first: for the one job (0, 10) the
  first run logs (1, 5), and the second run, whose energy is the same, ends with the
  timeline (1, 10), its interval merged into the entry the first run left.
\<close>

theorem second_run_extends_timeline:
  "simulate_eadvfs 1 10000 one_short_job
     = Break (the (state_of (simulate_eadvfs 1 10000 one_short_job))) \<and>
   gantt (the (state_of (simulate_eadvfs 1 10000 one_short_job))) = [(1, 5)] \<and>
   simulate_eadvfs 1 10000 (the (state_of (simulate_eadvfs 1 10000 one_short_job)))
     = Break (the (state_of (simulate_eadvfs 1 10000
                (the (state_of (simulate_eadvfs 1 10000 one_short_job)))))) \<and>
   gantt (the (state_of (simulate_eadvfs 1 10000
            (the (state_of (simulate_eadvfs 1 10000 one_short_job)))))) = [(1, 10)] \<and>
   energy (the (state_of (simulate_eadvfs 1 10000
            (the (state_of (simulate_eadvfs 1 10000 one_short_job))))))
     = energy (the (state_of (simulate_eadvfs 1 10000 one_short_job)))"
  by code_simp

section \<open>The job source\<close>

lemma empty_job_list_run:
  "simulate_eadvfs (Suc n) se (load_processes [] Simulator_init)
     = Break (load_processes [] Simulator_init)"
proof -
  let ?s = "load_processes [] Simulator_init"
  have r: "reset ?s = ?s" by (simp add: reset_def load_processes_def Simulator_init_def)
  have "ready_queue (current_time ?s) (procs ?s) = []"
    by (simp add: ready_queue_def load_processes_def)
  moreover have "\<not> next_event_time (current_time ?s) (procs ?s) < FAR"
    by (simp add: next_event_time_def load_processes_def)
  ultimately have it: "iteration se ?s = Break ?s" by (simp add: iteration_idle)
  have "sim_loop (Suc n) se ?s = Break ?s"
    by (subst sim_loop_front) (simp only: it outcome.case)
  then show ?thesis by (simp only: simulate_eadvfs_def r)
qed

text \<open>
  Claim C9, as the code has it. A stream that fails to open ends \<^verbatim>\<open>main\<close> with exit
  code 1 and no simulation. A stream that opened is never refused: when no pair can be
  read from it, because it is empty or malformed from the start, the simulation of the
  empty job list is run, ends at once, and \<^verbatim>\<open>main\<close> returns 0; and whatever the tokens
  are, when \<^verbatim>\<open>main\<close> returns it returns 0, after the simulation of the pairs read
  before the first read that failed has been run to its end.
\<close>

theorem main_exit_codes:
  "main n CannotOpen = Some (1, None) \<and>
   (read_jobs ts = [] \<longrightarrow>
      main (Suc n) (Tokens ts) = Some (0, Some (load_processes [] Simulator_init))) \<and>
   (\<forall>c r. main n (Tokens ts) = Some (c, r) \<longrightarrow>
      c = 0 \<and>
      (\<exists>b. r = Some b \<and>
         simulate_eadvfs n 100000 (load_processes (read_jobs ts) Simulator_init) = Break b))"
proof -
  have a: "main n CannotOpen = Some (1, None)" by (simp add: main_def)
  have b: "main (Suc n) (Tokens ts) = Some (0, Some (load_processes [] Simulator_init))"
    if "read_jobs ts = []"
    using that by (simp add: main_def empty_job_list_run del: sim_loop.simps)
  have c: "\<forall>c r. main n (Tokens ts) = Some (c, r) \<longrightarrow>
      c = 0 \<and>
      (\<exists>b. r = Some b \<and>
         simulate_eadvfs n 100000 (load_processes (read_jobs ts) Simulator_init) = Break b)"
    by (auto simp: main_def Let_def split: outcome.splits)
  from a b c show ?thesis by blast
qed

theorem main_exit_codes_witness:
  "main 0 CannotOpen = Some (1, None) \<and>
   read_jobs [Number 0, Text] = [] \<and>
   main (Suc 0) (Tokens [Number 0, Text]) = Some (0, Some (load_processes [] Simulator_init)) \<and>
   main 1 (Tokens [Number 0, Number 10])
     = Some (0, Some (the (state_of (simulate_eadvfs 1 100000 one_short_job))))"
proof -
  have e: "main 1 (Tokens [Number 0, Number 10])
             = Some (0, Some (the (state_of (simulate_eadvfs 1 100000 one_short_job))))"
    by code_simp
  have r: "read_jobs [Number 0, Text] = []" by simp
  from main_exit_codes[of 0 "[Number 0, Text]"] r e show ?thesis by simp
qed

text \<open>
  An empty file, a file with an arrival and no burst, a file whose burst is followed
  by text, and a file with text between the numbers: each is simulated (the first two
  as the empty job list, the others as the one job read) and ends with exit code 0.
\<close>

theorem main_accepts_empty_and_malformed:
  "read_jobs [] = [] \<and>
   main 1 (Tokens []) = Some (0, Some (load_processes [] Simulator_init)) \<and>
   read_jobs [Number 0, Text] = [] \<and>
   main 1 (Tokens [Number 0, Text]) = Some (0, Some (load_processes [] Simulator_init)) \<and>
   read_jobs [Number 0, NumberThenText 10] = [(0, 10)] \<and>
   main 1 (Tokens [Number 0, NumberThenText 10])
     = Some (0, Some (the (state_of (simulate_eadvfs 1 100000 one_short_job)))) \<and>
   read_jobs [Number 0, Number 10, Text, Number 5] = [(0, 10)] \<and>
   main 1 (Tokens [Number 0, Number 10, Text, Number 5])
     = Some (0, Some (the (state_of (simulate_eadvfs 1 100000 one_short_job))))"
  by code_simp

end
